theory Spec2Isabelle
  imports Main
begin

chapter \<open>The embedding of the sources\<close>

section \<open>JavaScript errors as values\<close>

text \<open>
  Every \<open>throw\<close> of the TypeScript sources is a value of \<open>js_error\<close>: the class of
  the thrown object and its message. A function that may throw returns
  \<open>js_error + 'a\<close>, with \<open>Inl\<close> for the thrown error.
\<close>

datatype err_class = ValidationError | StateError | ConsensusError | Error | TypeError | RangeError

datatype js_error = JsError err_class string

fun message :: "js_error \<Rightarrow> string" where
  "message (JsError c m) = m"

fun err_class_of :: "js_error \<Rightarrow> err_class" where
  "err_class_of (JsError c m) = c"

section \<open>TransactionValidator.ts\<close>

text \<open>
  The fields of \<open>Transaction\<close> that \<open>TransactionValidator\<close> reads. The type itself
  (\<open>./types/Transaction\<close>) is not among the sources. The amount, the fee and the
  sender's balance are \<open>bigint\<close> (the class compares them with \<open>BigInt(0)\<close> and with
  its \<open>minFee: bigint\<close>): unbounded integers. The timestamp is a number of
  milliseconds. A string field is falsy exactly when it is empty.
\<close>

record tv_transaction =
  tv_id :: string
  tv_from :: string
  tv_to :: string
  tv_signature :: string
  tv_amount :: int
  tv_fee :: int
  tv_senderBalance :: int
  tv_timestamp :: int
  tv_nonce :: int

record tv_block =
  tvb_timestamp :: int
  tvb_transactions :: "tv_transaction list"

text \<open>
  What the validator takes from its environment: the clock (\<open>Date.now()\<close>), the
  built-in \<open>JSON.stringify\<close> applied to the transaction, the SHA-256 digest of the
  canonical fields, and the elliptic-curve verification
  \<open>ec.keyFromPublic(from).verify(hash, signature)\<close>, which either throws (\<open>Inl\<close> of
  the message) or answers.

  \<open>JSON.stringify\<close> has no serialization of its own for a \<open>bigint\<close>: on a value
  with a \<open>bigint\<close> field it throws a \<open>TypeError\<close>, unless the program has given
  \<open>BigInt.prototype\<close> (or the object) a \<open>toJSON\<close> method. So it either throws
  a \<open>TypeError\<close> (\<open>Inl\<close> of its message) or returns the text;
  \<open>JSON_stringify_builtin\<close> is what it does to a transaction, whose amount and fee
  are \<open>bigint\<close>, when no \<open>toJSON\<close> has been installed.
\<close>

record tv_env =
  tv_now :: int
  tv_JSON_stringify :: "tv_transaction \<Rightarrow> string + string"
  tv_sha256 :: "string \<times> string \<times> int \<times> int \<times> int \<times> int \<Rightarrow> string"
  tv_ecVerify :: "string \<Rightarrow> string \<Rightarrow> string \<Rightarrow> string + bool"

definition JSON_stringify_builtin :: "tv_transaction \<Rightarrow> string + string" where
  "JSON_stringify_builtin tx = Inl ''Do not know how to serialize a BigInt''"

definition maxTxSize :: nat where
  "maxTxSize = 1000000"

definition minFee :: int where
  "minFee = 1000"

definition missing_fields :: "tv_transaction \<Rightarrow> bool" where
  "missing_fields tx \<longleftrightarrow> tv_id tx = [] \<or> tv_from tx = [] \<or> tv_to tx = [] \<or> tv_signature tx = []"

text \<open>
  \<open>Buffer.from(JSON.stringify(tx)).length\<close> is the number of bytes of the text; an
  error thrown by \<open>JSON.stringify\<close> leaves \<open>validateBasics\<close> as it is.
\<close>

definition validateBasics :: "tv_env \<Rightarrow> tv_transaction \<Rightarrow> js_error + unit" where
  "validateBasics env tx =
     (if missing_fields tx
      then Inl (JsError ValidationError ''Missing required transaction fields'')
      else case tv_JSON_stringify env tx of
        Inl m \<Rightarrow> Inl (JsError TypeError m)
      | Inr json \<Rightarrow>
          if length json > maxTxSize
          then Inl (JsError ValidationError ''Transaction size exceeds maximum allowed'')
          else if tv_timestamp tx > tv_now env + 300000
          then Inl (JsError ValidationError ''Transaction timestamp too far in future'')
          else if tv_fee tx < minFee
          then Inl (JsError ValidationError ''Transaction fee below minimum required'')
          else Inr ())"

definition calculateTxHash :: "tv_env \<Rightarrow> tv_transaction \<Rightarrow> string" where
  "calculateTxHash env tx =
     tv_sha256 env (tv_from tx, tv_to tx, tv_amount tx, tv_fee tx, tv_timestamp tx, tv_nonce tx)"

text \<open>
  \<open>validateSignature\<close> throws its own \<open>ValidationError\<close> inside a \<open>try\<close> whose
  \<open>catch\<close> wraps every error, so an invalid signature surfaces with the prefix too.
\<close>

definition validateSignature :: "tv_env \<Rightarrow> tv_transaction \<Rightarrow> js_error + unit" where
  "validateSignature env tx =
     (case tv_ecVerify env (tv_from tx) (calculateTxHash env tx) (tv_signature tx) of
        Inl m \<Rightarrow> Inl (JsError ValidationError (''Signature validation failed: '' @ m))
      | Inr validSig \<Rightarrow>
          if \<not> validSig
          then Inl (JsError ValidationError
                 (''Signature validation failed: '' @ ''Invalid transaction signature''))
          else Inr ())"

definition validateAmount :: "tv_transaction \<Rightarrow> js_error + unit" where
  "validateAmount tx =
     (if tv_amount tx \<le> 0
      then Inl (JsError ValidationError ''Transaction amount must be positive'')
      else if tv_amount tx > tv_senderBalance tx
      then Inl (JsError ValidationError ''Insufficient sender balance'')
      else if tv_amount tx + tv_fee tx > tv_senderBalance tx
      then Inl (JsError ValidationError ''Insufficient balance to cover amount + fee'')
      else Inr ())"

definition validateInBlock :: "tv_transaction \<Rightarrow> tv_block \<Rightarrow> js_error + unit" where
  "validateInBlock tx block =
     (if tv_timestamp tx > tvb_timestamp block
      then Inl (JsError ValidationError ''Transaction timestamp after block timestamp'')
      else if length (filter (\<lambda>t. tv_id t = tv_id tx) (tvb_transactions block)) > 1
      then Inl (JsError ValidationError ''Duplicate transaction in block'')
      else Inr ())"

text \<open>
  The outer \<open>catch\<close> rethrows a \<open>ValidationError\<close> as it is and wraps anything else.
\<close>

definition rethrow_TV :: "js_error \<Rightarrow> js_error" where
  "rethrow_TV e =
     (if err_class_of e = ValidationError then e
      else JsError ValidationError (''Transaction validation failed: '' @ message e))"

definition validateTransaction_TV ::
  "tv_env \<Rightarrow> tv_transaction \<Rightarrow> tv_block option \<Rightarrow> js_error + bool" where
  "validateTransaction_TV env tx block =
     (case validateBasics env tx of
        Inl e \<Rightarrow> Inl (rethrow_TV e)
      | Inr _ \<Rightarrow>
     (case validateSignature env tx of
        Inl e \<Rightarrow> Inl (rethrow_TV e)
      | Inr _ \<Rightarrow>
     (case validateAmount tx of
        Inl e \<Rightarrow> Inl (rethrow_TV e)
      | Inr _ \<Rightarrow>
     (case block of
        None \<Rightarrow> Inr True
      | Some b \<Rightarrow>
          (case validateInBlock tx b of
             Inl e \<Rightarrow> Inl (rethrow_TV e)
           | Inr _ \<Rightarrow> Inr True)))))"

text \<open>
  A concrete environment, with the built-in \<open>JSON.stringify\<close>, and a transaction that
  has all required fields, the minimum fee, amount 0 and a signature that does not
  verify.
\<close>

definition tv_env0 :: tv_env where
  "tv_env0 = \<lparr> tv_now = 1000000, tv_JSON_stringify = JSON_stringify_builtin,
               tv_sha256 = (\<lambda>(f, t, a, fe, ts, n). f @ t),
               tv_ecVerify = (\<lambda>k h s. Inr (s = ''good'')) \<rparr>"

definition tv_tx0 :: tv_transaction where
  "tv_tx0 = \<lparr> tv_id = ''t1'', tv_from = ''alice'', tv_to = ''bob'', tv_signature = ''forged'',
              tv_amount = 0, tv_fee = 1000, tv_senderBalance = 5000,
              tv_timestamp = 999000, tv_nonce = 0 \<rparr>"

text \<open>
  The same environment in a program that has installed a \<open>toJSON\<close> for \<open>bigint\<close>,
  so that the transaction serializes to a text of 200 bytes.
\<close>

definition tv_env1 :: tv_env where
  "tv_env1 = tv_env0 \<lparr> tv_JSON_stringify := (\<lambda>tx. Inr (replicate 200 CHR ''x'')) \<rparr>"

section \<open>BlockValidator.ts\<close>

text \<open>
  \<open>validateBlockStructure\<close> tests the run-time types of the fields of a block, so a
  block as it arrives has dynamically typed fields: a number, a string, or anything
  else. \<open>transactions\<close> is an array (\<open>Some\<close>) or not (\<open>None\<close>).
\<close>

datatype jsval = JNumber int | JString string | JOther

record bv_transaction =
  bvt_id :: string
  bvt_signature :: string
  bvt_senderPublicKey :: string

record bv_block =
  bv_index :: jsval
  bv_timestamp :: jsval
  bv_hash :: jsval
  bv_previousHash :: jsval
  bv_transactions :: "bv_transaction list option"
  bv_nonce :: jsval

text \<open>
  The previous block is a block of the chain; only its timestamp and hash are read.
\<close>

record bv_previous =
  bvp_timestamp :: int
  bvp_hash :: string

text \<open>
  The constructor's arguments, both numbers, and the environment: the clock, the
  length of \<open>JSON.stringify(block)\<close>, and the SHA-256 hex digest of the JSON text of
  index, previousHash, timestamp, transactions and nonce. \<open>JSON.stringify\<close> can
  throw (on a \<open>bigint\<close>, on a cyclic value), and so can either of the two that call
  it: \<open>Inl\<close> is the message of the error thrown.
\<close>

record bv_config =
  bv_difficulty :: int
  bv_maxBlockSize :: int

record bv_env =
  bv_now :: int
  bv_jsonLength :: "bv_block \<Rightarrow> string + nat"
  bv_sha256 :: "jsval \<times> jsval \<times> jsval \<times> bv_transaction list option \<times> jsval \<Rightarrow> string + string"

record validation_result =
  isValid :: bool
  error :: "string option"

fun is_number :: "jsval \<Rightarrow> bool" where
  "is_number (JNumber n) = True"
| "is_number v = False"

fun is_string :: "jsval \<Rightarrow> bool" where
  "is_string (JString s) = True"
| "is_string v = False"

text \<open>
  The checks after \<open>validateBlockStructure\<close> read the timestamp as a number and the
  hashes as strings; they run only on a block that has passed it.
\<close>

fun the_number :: "jsval \<Rightarrow> int" where
  "the_number (JNumber n) = n"
| "the_number v = 0"

text \<open>The decimal text of an integer, as a template literal prints it.\<close>

definition digit_char :: "nat \<Rightarrow> char" where
  "digit_char n = ''0123456789'' ! n"

function show_nat :: "nat \<Rightarrow> string" where
  "show_nat n = (if n < 10 then [digit_char n] else show_nat (n div 10) @ [digit_char (n mod 10)])"
  by pat_completeness auto
termination
  by (relation "measure (\<lambda>n. n)") auto

declare show_nat.simps [simp del]

definition show_int :: "int \<Rightarrow> string" where
  "show_int i = (if i < 0 then CHR ''-'' # show_nat (nat (- i)) else show_nat (nat i))"

text \<open>
  \<open>String.prototype.repeat\<close> throws a \<open>RangeError\<close> on a negative count.
\<close>

definition js_repeat :: "string \<Rightarrow> int \<Rightarrow> js_error + string" where
  "js_repeat s count =
     (if count < 0 then Inl (JsError RangeError (''Invalid count value: '' @ show_int count))
      else Inr (concat (replicate (nat count) s)))"

definition validateBlockStructure :: "bv_block \<Rightarrow> bool" where
  "validateBlockStructure block =
     (is_number (bv_index block) \<and> is_number (bv_timestamp block) \<and>
      is_string (bv_hash block) \<and> is_string (bv_previousHash block) \<and>
      bv_transactions block \<noteq> None)"

definition validateBlockSize :: "bv_env \<Rightarrow> bv_config \<Rightarrow> bv_block \<Rightarrow> js_error + bool" where
  "validateBlockSize env cfg block =
     (case bv_jsonLength env block of
        Inl m \<Rightarrow> Inl (JsError TypeError m)
      | Inr blockSize \<Rightarrow> Inr (int blockSize \<le> bv_maxBlockSize cfg))"

definition validateTimestamp :: "bv_env \<Rightarrow> bv_block \<Rightarrow> bv_previous option \<Rightarrow> bool" where
  "validateTimestamp env block previousBlock =
     (if the_number (bv_timestamp block) > bv_now env + 2 * 60 * 1000 then False
      else (case previousBlock of
              Some pb \<Rightarrow> if the_number (bv_timestamp block) \<le> bvp_timestamp pb then False else True
            | None \<Rightarrow> True))"

definition calculateBlockHash_BV :: "bv_env \<Rightarrow> bv_block \<Rightarrow> js_error + string" where
  "calculateBlockHash_BV env block =
     (case bv_sha256 env (bv_index block, bv_previousHash block, bv_timestamp block,
                          bv_transactions block, bv_nonce block) of
        Inl m \<Rightarrow> Inl (JsError TypeError m)
      | Inr digest \<Rightarrow> Inr digest)"

definition startsWith :: "string \<Rightarrow> string \<Rightarrow> bool" where
  "startsWith s p = (take (length p) s = p)"

text \<open>
  \<open>validateBlockHash\<close> recomputes the hash first and builds the prefix second; either
  step may throw.
\<close>

definition validateBlockHash :: "bv_env \<Rightarrow> bv_config \<Rightarrow> bv_block \<Rightarrow> js_error + bool" where
  "validateBlockHash env cfg block =
     (case calculateBlockHash_BV env block of
        Inl e \<Rightarrow> Inl e
      | Inr calculatedHash \<Rightarrow>
          (case js_repeat ''0'' (bv_difficulty cfg) of
             Inl e \<Rightarrow> Inl e
           | Inr hashPrefix \<Rightarrow>
               Inr (case bv_hash block of
                      JString h \<Rightarrow> h = calculatedHash \<and> startsWith h hashPrefix
                    | _ \<Rightarrow> False)))"

definition validatePreviousHash :: "bv_block \<Rightarrow> bv_previous \<Rightarrow> bool" where
  "validatePreviousHash block previousBlock =
     (bv_previousHash block = JString (bvp_hash previousBlock))"

definition validateTransaction_BV :: "bv_transaction \<Rightarrow> bool" where
  "validateTransaction_BV tx =
     (if bvt_signature tx = [] \<or> bvt_senderPublicKey tx = [] then False else True)"

fun validateTransactions :: "bv_transaction list \<Rightarrow> validation_result" where
  "validateTransactions [] = \<lparr> isValid = True, error = None \<rparr>"
| "validateTransactions (tx # txs) =
     (if \<not> validateTransaction_BV tx
      then \<lparr> isValid = False, error = Some (''Invalid transaction: '' @ bvt_id tx) \<rparr>
      else validateTransactions txs)"

text \<open>
  The body of the \<open>try\<close> of \<open>validateBlock\<close>, which returns a result or throws, and
  \<open>validateBlock\<close> itself, whose \<open>catch\<close> turns a thrown error into a result.
\<close>

definition validateBlock_try ::
  "bv_env \<Rightarrow> bv_config \<Rightarrow> bv_block \<Rightarrow> bv_previous option \<Rightarrow> js_error + validation_result" where
  "validateBlock_try env cfg block previousBlock =
     (if \<not> validateBlockStructure block
      then Inr \<lparr> isValid = False, error = Some ''Invalid block structure'' \<rparr>
      else case validateBlockSize env cfg block of
        Inl e \<Rightarrow> Inl e
      | Inr sizeOk \<Rightarrow>
          if \<not> sizeOk
          then Inr \<lparr> isValid = False, error = Some ''Block exceeds maximum size'' \<rparr>
          else if \<not> validateTimestamp env block previousBlock
          then Inr \<lparr> isValid = False, error = Some ''Invalid block timestamp'' \<rparr>
          else case validateBlockHash env cfg block of
            Inl e \<Rightarrow> Inl e
          | Inr hashOk \<Rightarrow>
              if \<not> hashOk
              then Inr \<lparr> isValid = False, error = Some ''Invalid block hash'' \<rparr>
              else if (case previousBlock of
                         Some pb \<Rightarrow> \<not> validatePreviousHash block pb
                       | None \<Rightarrow> False)
              then Inr \<lparr> isValid = False, error = Some ''Invalid previous block hash'' \<rparr>
              else (let txValidation = validateTransactions (the (bv_transactions block))
                    in if \<not> isValid txValidation then Inr txValidation
                       else Inr \<lparr> isValid = True, error = None \<rparr>))"

definition validateBlock_BV ::
  "bv_env \<Rightarrow> bv_config \<Rightarrow> bv_block \<Rightarrow> bv_previous option \<Rightarrow> validation_result" where
  "validateBlock_BV env cfg block previousBlock =
     (case validateBlock_try env cfg block previousBlock of
        Inl e \<Rightarrow> \<lparr> isValid = False, error = Some (''Validation error: '' @ message e) \<rparr>
      | Inr result \<Rightarrow> result)"

text \<open>A concrete validator, clock and blocks used to evaluate \<open>validateBlock\<close>.\<close>

definition bv_cfg0 :: bv_config where
  "bv_cfg0 = \<lparr> bv_difficulty = 2, bv_maxBlockSize = 1000000 \<rparr>"

definition bv_env0 :: bv_env where
  "bv_env0 = \<lparr> bv_now = 1000000, bv_jsonLength = (\<lambda>b. Inr 300),
               bv_sha256 = (\<lambda>d. Inr ''00c0ffee'') \<rparr>"

definition bv_block_future :: bv_block where
  "bv_block_future =
     \<lparr> bv_index = JNumber 1, bv_timestamp = JNumber 9000000, bv_hash = JString ''00bad'',
       bv_previousHash = JString ''00aa'', bv_transactions = Some [], bv_nonce = JNumber 7 \<rparr>"

definition bv_block_badhash :: bv_block where
  "bv_block_badhash =
     \<lparr> bv_index = JNumber 1, bv_timestamp = JNumber 900000, bv_hash = JString ''00bad'',
       bv_previousHash = JString ''not the parent'',
       bv_transactions = Some [\<lparr> bvt_id = ''t'', bvt_signature = [], bvt_senderPublicKey = [] \<rparr>],
       bv_nonce = JNumber 7 \<rparr>"

definition bv_previous0 :: bv_previous where
  "bv_previous0 = \<lparr> bvp_timestamp = 800000, bvp_hash = ''00aa'' \<rparr>"

section \<open>JavaScript Map\<close>

text \<open>
  A \<open>Map\<close> keeps its entries in insertion order, and \<open>entries()\<close> and \<open>values()\<close>
  iterate in that order: it is a list of pairs with distinct keys. \<open>set\<close> on a key
  that is present replaces the value in place; on a new key it appends.
\<close>

type_synonym ('k, 'v) jsmap = "('k \<times> 'v) list"

definition map_has :: "('k, 'v) jsmap \<Rightarrow> 'k \<Rightarrow> bool" where
  "map_has m k = (k \<in> set (map fst m))"

definition map_get :: "('k, 'v) jsmap \<Rightarrow> 'k \<Rightarrow> 'v option" where
  "map_get m k = map_of m k"

fun map_set :: "('k, 'v) jsmap \<Rightarrow> 'k \<Rightarrow> 'v \<Rightarrow> ('k, 'v) jsmap" where
  "map_set [] k v = [(k, v)]"
| "map_set ((k', v') # m) k v = (if k' = k then (k, v) # m else (k', v') # map_set m k v)"

definition map_delete :: "('k, 'v) jsmap \<Rightarrow> 'k \<Rightarrow> ('k, 'v) jsmap" where
  "map_delete m k = filter (\<lambda>(k', v). k' \<noteq> k) m"

definition map_values :: "('k, 'v) jsmap \<Rightarrow> 'v list" where
  "map_values m = map snd m"

section \<open>TransactionPool.ts: the pool with a fee-less admission by age\<close>

text \<open>
  The first \<open>TransactionPool\<close> of the file (an \<open>EventEmitter\<close>). \<open>Transaction\<close>
  (\<open>./Transaction\<close>) is not among the sources; these are the fields the pool reads,
  and \<open>id\<close> and \<open>fee\<close>, which it carries. A pool entry is the transaction with its
  timestamp replaced by the admission time, and a set \<open>seen\<close>.
\<close>

record tp_transaction =
  tp_id :: string
  tp_fromAddress :: string
  tp_toAddress :: string
  tp_amount :: int
  tp_fee :: int
  tp_timestamp :: int
  tp_signature :: string

record tp_poolTransaction = tp_transaction +
  tp_seen :: "string list"

datatype tp_event = TransactionEvent tp_transaction | ErrorEvent js_error

text \<open>
  The collaborators: \<open>blockchain.verifyTransaction\<close> and
  \<open>blockchain.getAddressBalance\<close> (either may throw), the byte length of
  \<open>JSON.stringify(tx)\<close>, and SHA-256 of the JSON text of the object literal built from
  fromAddress, toAddress, amount and timestamp.
\<close>

record tp_env =
  tp_verifyTransaction :: "tp_transaction \<Rightarrow> js_error + bool"
  tp_getAddressBalance :: "string \<Rightarrow> js_error + int"
  tp_jsonLength :: "tp_transaction \<Rightarrow> nat"
  tp_sha256 :: "string \<times> string \<times> int \<times> int \<Rightarrow> string"

text \<open>
  The pool: the map from transaction hash to entry, the configured maximum, and what
  has been emitted to the listeners so far.
\<close>

record tp_pool =
  tp_transactions :: "(string, tp_poolTransaction) jsmap"
  tp_maxSize :: nat
  tp_emitted :: "tp_event list"

definition MAX_AGE_MS :: int where
  "MAX_AGE_MS = 3600000"

definition MAX_SIZE_BYTES :: nat where
  "MAX_SIZE_BYTES = 5000000"

definition new_TransactionPool :: "nat \<Rightarrow> tp_pool" where
  "new_TransactionPool maxSize = \<lparr> tp_transactions = [], tp_maxSize = maxSize, tp_emitted = [] \<rparr>"

definition getTransactionHash :: "tp_env \<Rightarrow> tp_transaction \<Rightarrow> string" where
  "getTransactionHash env tx =
     tp_sha256 env (tp_fromAddress tx, tp_toAddress tx, tp_amount tx, tp_timestamp tx)"

definition getPoolSize :: "tp_pool \<Rightarrow> nat" where
  "getPoolSize pool = length (tp_transactions pool)"

definition validateTransaction_P1 :: "tp_env \<Rightarrow> tp_transaction \<Rightarrow> js_error + unit" where
  "validateTransaction_P1 env tx =
     (if tp_signature tx = [] \<or> tp_fromAddress tx = [] \<or> tp_toAddress tx = [] \<or> tp_amount tx \<le> 0
      then Inl (JsError Error ''Invalid transaction format'')
      else case tp_verifyTransaction env tx of
        Inl e \<Rightarrow> Inl e
      | Inr verified \<Rightarrow>
          if \<not> verified then Inl (JsError Error ''Transaction signature verification failed'')
          else case tp_getAddressBalance env (tp_fromAddress tx) of
            Inl e \<Rightarrow> Inl e
          | Inr senderBalance \<Rightarrow>
              if senderBalance < tp_amount tx then Inl (JsError Error ''Insufficient balance'')
              else if tp_jsonLength env tx > MAX_SIZE_BYTES
              then Inl (JsError Error ''Transaction size exceeds limit'')
              else Inr ())"

definition removeOldestTransactions :: "int \<Rightarrow> tp_pool \<Rightarrow> tp_pool" where
  "removeOldestTransactions now pool =
     pool \<lparr> tp_transactions :=
              filter (\<lambda>(hash, tx). \<not> (now - tp_timestamp tx > MAX_AGE_MS)) (tp_transactions pool) \<rparr>"

definition poolTx_of :: "int \<Rightarrow> tp_transaction \<Rightarrow> tp_poolTransaction" where
  "poolTx_of now transaction =
     (tp_transaction.extend transaction \<lparr> tp_seen = [] \<rparr>) \<lparr> tp_timestamp := now \<rparr>"

text \<open>
  \<open>addTransaction\<close> at the clock value \<open>now\<close>. Every \<open>throw\<close> inside the \<open>try\<close>
  ends in the \<open>catch\<close>, which emits the error and returns \<open>false\<close>.
\<close>

definition addTransaction_P1 :: "tp_env \<Rightarrow> int \<Rightarrow> tp_pool \<Rightarrow> tp_transaction \<Rightarrow> bool \<times> tp_pool" where
  "addTransaction_P1 env now pool transaction =
     (let txHash = getTransactionHash env transaction in
      if map_has (tp_transactions pool) txHash then (False, pool)
      else case validateTransaction_P1 env transaction of
        Inl e \<Rightarrow> (False, pool \<lparr> tp_emitted := tp_emitted pool @ [ErrorEvent e] \<rparr>)
      | Inr _ \<Rightarrow>
          (let pool1 = (if getPoolSize pool \<ge> tp_maxSize pool
                        then removeOldestTransactions now pool else pool);
               poolTx = poolTx_of now transaction;
               pool2 = pool1 \<lparr> tp_transactions := map_set (tp_transactions pool1) txHash poolTx \<rparr>
           in (True, pool2 \<lparr> tp_emitted := tp_emitted pool2 @ [TransactionEvent transaction] \<rparr>)))"

text \<open>A concrete chain interface, pool and transactions used to evaluate the pool.\<close>

definition tp_env0 :: tp_env where
  "tp_env0 = \<lparr> tp_verifyTransaction = (\<lambda>tx. Inr True),
               tp_getAddressBalance = (\<lambda>a. Inr 1000),
               tp_jsonLength = (\<lambda>tx. 250),
               tp_sha256 = (\<lambda>(f, t, a, ts). f @ ''>'' @ t @ (if a = 10 then ''#10'' else ''#'')) \<rparr>"

definition tp_txA :: tp_transaction where
  "tp_txA = \<lparr> tp_id = ''a'', tp_fromAddress = ''alice'', tp_toAddress = ''bob'', tp_amount = 10,
              tp_fee = 1, tp_timestamp = 5000, tp_signature = ''sigA'' \<rparr>"

definition tp_txA' :: tp_transaction where
  "tp_txA' = \<lparr> tp_id = ''a2'', tp_fromAddress = ''alice'', tp_toAddress = ''bob'', tp_amount = 10,
               tp_fee = 7, tp_timestamp = 5000, tp_signature = ''sigA2'' \<rparr>"

definition tp_txB :: tp_transaction where
  "tp_txB = \<lparr> tp_id = ''b'', tp_fromAddress = ''carol'', tp_toAddress = ''dave'', tp_amount = 20,
              tp_fee = 1, tp_timestamp = 6000, tp_signature = ''sigB'' \<rparr>"

section \<open>TransactionPool.ts: the pool with a balance check over pending amounts\<close>

text \<open>
  The second \<open>TransactionPool\<close> of the file. Its \<open>Transaction\<close> class is not among
  the sources: the pool reads \<open>from\<close>, \<open>amount\<close> and \<open>blockNumber\<close> and calls
  \<open>isValid()\<close> and \<open>serialize()\<close>; the fee is a field of the transaction that this
  pool never reads. Amounts and balances are JavaScript numbers, that is, IEEE doubles:
  the type \<open>'n\<close> of numbers, with its zero, its addition and its comparison, is a
  parameter, so that nothing here depends on how doubles round.
\<close>

record 'n tp2_transaction =
  tp2_from :: string
  tp2_amount :: 'n
  tp2_fee :: 'n
  tp2_blockNumber :: 'n

text \<open>
  \<open>tp2_isValid\<close> is \<open>transaction.isValid()\<close>, \<open>tp2_hash\<close> is
  \<open>CryptoHash.hash(transaction.serialize())\<close>; \<open>tp2_zero\<close>, \<open>tp2_plus\<close> and
  \<open>tp2_ge\<close> are \<open>0\<close>, \<open>+\<close> and \<open>>=\<close> on numbers.
\<close>

record 'n tp2_env =
  tp2_isValid :: "'n tp2_transaction \<Rightarrow> bool"
  tp2_hash :: "'n tp2_transaction \<Rightarrow> string"
  tp2_zero :: 'n
  tp2_plus :: "'n \<Rightarrow> 'n \<Rightarrow> 'n"
  tp2_ge :: "'n \<Rightarrow> 'n \<Rightarrow> bool"

type_synonym 'n tp2_pool = "(string, 'n tp2_transaction) jsmap"

definition maxPoolSize :: nat where
  "maxPoolSize = 1000"

text \<open>
  The body of the private method \<open>getSenderBalance\<close> is a comment and a \<open>throw\<close>: it
  returns no balance for any address.
\<close>

definition getSenderBalance :: "string \<Rightarrow> js_error + 'n" where
  "getSenderBalance address = Inl (JsError Error ''Not implemented'')"

definition getPendingAmount :: "'n tp2_env \<Rightarrow> 'n tp2_pool \<Rightarrow> string \<Rightarrow> 'n" where
  "getPendingAmount env pool address =
     fold (\<lambda>tx total. if tp2_from tx = address then tp2_plus env total (tp2_amount tx) else total)
          (map_values pool) (tp2_zero env)"

text \<open>
  \<open>validateTransactionBalance\<close> awaits the balance first; an error thrown there is
  caught and thrown again with a prefix, before the pending amount is looked at.
\<close>

definition validateTransactionBalance ::
  "'n tp2_env \<Rightarrow> 'n tp2_pool \<Rightarrow> 'n tp2_transaction \<Rightarrow> js_error + bool" where
  "validateTransactionBalance env pool tx =
     (case getSenderBalance (tp2_from tx) of
        Inl e \<Rightarrow> Inl (JsError Error (''Transaction validation failed: '' @ message e))
      | Inr senderBalance \<Rightarrow>
          (let pendingAmount = getPendingAmount env pool (tp2_from tx)
           in Inr (tp2_ge env senderBalance (tp2_plus env pendingAmount (tp2_amount tx)))))"

definition failed_to_add :: "string \<Rightarrow> js_error" where
  "failed_to_add m = JsError Error (''Failed to add transaction: '' @ m)"

text \<open>
  \<open>addTransaction\<close> returns nothing or throws: \<open>Inr\<close> is the pool after an admission,
  \<open>Inl\<close> the error of a rejection, which leaves the pool as it was.
\<close>

definition addTransaction_P2 ::
  "'n tp2_env \<Rightarrow> 'n tp2_pool \<Rightarrow> 'n tp2_transaction \<Rightarrow> js_error + 'n tp2_pool" where
  "addTransaction_P2 env pool transaction =
     (if \<not> tp2_isValid env transaction then Inl (failed_to_add ''Invalid transaction signature'')
      else if length pool \<ge> maxPoolSize then Inl (failed_to_add ''Transaction pool is full'')
      else let txHash = tp2_hash env transaction in
        if map_has pool txHash then Inl (failed_to_add ''Transaction already exists in pool'')
        else case validateTransactionBalance env pool transaction of
          Inl e \<Rightarrow> Inl (failed_to_add (message e))
        | Inr ok \<Rightarrow>
            if \<not> ok then Inl (failed_to_add ''Insufficient balance for transaction'')
            else Inr (map_set pool txHash transaction))"

text \<open>
  The scenario of the specification: the pool holds a pending transaction of the sender
  with amount 60 and fee 5, and the sender submits a transaction with amount 40 and
  fee 5. The numbers are integers here, with their own addition and order.
\<close>

definition tp2_env0 :: "int tp2_env" where
  "tp2_env0 = \<lparr> tp2_isValid = (\<lambda>tx. True),
                tp2_hash = (\<lambda>tx. if tp2_amount tx = 60 then ''h60'' else ''h40''),
                tp2_zero = 0, tp2_plus = (\<lambda>a b. a + b), tp2_ge = (\<lambda>a b. a \<ge> b) \<rparr>"

definition tp2_pending60 :: "int tp2_transaction" where
  "tp2_pending60 = \<lparr> tp2_from = ''sender'', tp2_amount = 60, tp2_fee = 5, tp2_blockNumber = 1 \<rparr>"

definition tp2_new40 :: "int tp2_transaction" where
  "tp2_new40 = \<lparr> tp2_from = ''sender'', tp2_amount = 40, tp2_fee = 5, tp2_blockNumber = 1 \<rparr>"

section \<open>CryptographicHash: merkleHash\<close>

text \<open>
  The file holds two \<open>CryptographicHash\<close> classes. In both, \<open>hash\<close> applies the
  configured digest \<open>iterations\<close> times and encodes the result; it is the parameter
  \<open>H\<close> here. Both \<open>merkleHash\<close> methods hash the items and then, while more than one
  hash is left, build the next level with a \<open>for\<close> loop that steps its index by 2. The
  loops are functions of the index and of the array under construction.

  The first class: an unpaired last hash is hashed with itself.
\<close>

function levelLoop_A :: "(string \<Rightarrow> string) \<Rightarrow> string list \<Rightarrow> nat \<Rightarrow> string list \<Rightarrow> string list" where
  "levelLoop_A H hashes i temp =
     (if i < length hashes
      then (if i + 1 = length hashes
            then levelLoop_A H hashes (i + 2) (temp @ [H (hashes ! i @ hashes ! i)])
            else levelLoop_A H hashes (i + 2) (temp @ [H (hashes ! i @ hashes ! (i + 1))]))
      else temp)"
  by pat_completeness auto
termination
  by (relation "measure (\<lambda>(H, hashes, i, temp). length hashes - i)") auto

declare levelLoop_A.simps [simp del]

lemma length_levelLoop_A:
  "length (levelLoop_A H hashes i temp) = length temp + (length hashes - i + 1) div 2"
proof (induction H hashes i temp rule: levelLoop_A.induct)
  case (1 H hashes i temp)
  show ?case
  proof (cases "i < length hashes")
    case False
    then show ?thesis by (simp add: levelLoop_A.simps)
  next
    case inside: True
    show ?thesis
    proof (cases "i + 1 = length hashes")
      case True
      have "levelLoop_A H hashes i temp
              = levelLoop_A H hashes (i + 2) (temp @ [H (hashes ! i @ hashes ! i)])"
        using inside True by (subst levelLoop_A.simps) simp
      then show ?thesis
        using "1.IH"(1) [OF inside True] True by simp
    next
      case False
      have "levelLoop_A H hashes i temp
              = levelLoop_A H hashes (i + 2) (temp @ [H (hashes ! i @ hashes ! (i + 1))])"
        using inside False by (subst levelLoop_A.simps) simp
      moreover have "(length hashes - (i + 2) + 1) div 2 + 1 = (length hashes - i + 1) div 2"
        using inside False by arith
      ultimately show ?thesis
        using "1.IH"(2) [OF inside False] by simp
    qed
  qed
qed

function whileLoop_A :: "(string \<Rightarrow> string) \<Rightarrow> string list \<Rightarrow> string list" where
  "whileLoop_A H hashes =
     (if length hashes > 1 then whileLoop_A H (levelLoop_A H hashes 0 []) else hashes)"
  by pat_completeness auto
termination
  by (relation "measure (\<lambda>(H, hashes). length hashes)") (auto simp: length_levelLoop_A)

declare whileLoop_A.simps [simp del]

definition merkleHash_A :: "(string \<Rightarrow> string) \<Rightarrow> string list \<Rightarrow> js_error + string" where
  "merkleHash_A H items =
     (if length items = 0
      then Inl (JsError Error (''Merkle hash calculation failed: '' @ ''Empty array provided for Merkle hash''))
      else Inr (whileLoop_A H (map H items) ! 0))"

text \<open>The second class: an unpaired last hash is pushed to the next level as it is.\<close>

function levelLoop_B :: "(string \<Rightarrow> string) \<Rightarrow> string list \<Rightarrow> nat \<Rightarrow> string list \<Rightarrow> string list" where
  "levelLoop_B H level i nextLevel =
     (if i < length level
      then (if i + 1 = length level
            then levelLoop_B H level (i + 2) (nextLevel @ [level ! i])
            else (let combined = level ! i @ level ! (i + 1);
                      hash = H combined
                  in levelLoop_B H level (i + 2) (nextLevel @ [hash])))
      else nextLevel)"
  by pat_completeness auto
termination
  by (relation "measure (\<lambda>(H, level, i, nextLevel). length level - i)") auto

declare levelLoop_B.simps [simp del]

lemma length_levelLoop_B:
  "length (levelLoop_B H level i nextLevel) = length nextLevel + (length level - i + 1) div 2"
proof (induction H level i nextLevel rule: levelLoop_B.induct)
  case (1 H level i nextLevel)
  show ?case
  proof (cases "i < length level")
    case False
    then show ?thesis by (simp add: levelLoop_B.simps)
  next
    case inside: True
    show ?thesis
    proof (cases "i + 1 = length level")
      case True
      have "levelLoop_B H level i nextLevel
              = levelLoop_B H level (i + 2) (nextLevel @ [level ! i])"
        using inside True by (subst levelLoop_B.simps) simp
      then show ?thesis
        using "1.IH"(1) [OF inside True] True by simp
    next
      case False
      have "levelLoop_B H level i nextLevel
              = levelLoop_B H level (i + 2) (nextLevel @ [H (level ! i @ level ! (i + 1))])"
        using inside False by (subst levelLoop_B.simps) (simp add: Let_def)
      moreover have "(length level - (i + 2) + 1) div 2 + 1 = (length level - i + 1) div 2"
        using inside False by arith
      ultimately show ?thesis
        using "1.IH"(2) [OF inside False refl refl] by simp
    qed
  qed
qed

function whileLoop_B :: "(string \<Rightarrow> string) \<Rightarrow> string list \<Rightarrow> string list" where
  "whileLoop_B H level =
     (if length level > 1 then whileLoop_B H (levelLoop_B H level 0 []) else level)"
  by pat_completeness auto
termination
  by (relation "measure (\<lambda>(H, level). length level)") (auto simp: length_levelLoop_B)

declare whileLoop_B.simps [simp del]

definition merkleHash_B :: "(string \<Rightarrow> string) \<Rightarrow> string list \<Rightarrow> js_error + string" where
  "merkleHash_B H dataArray =
     (if length dataArray = 0
      then Inl (JsError Error (''Failed to generate Merkle hash: '' @ ''Empty array provided for Merkle hash''))
      else Inr (whileLoop_B H (map H dataArray) ! 0))"

text \<open>
  The Merkle root in the words of the specification: hash pairwise, bottom-up, and
  promote an unpaired trailing element unchanged to the next level.
\<close>

fun spec_pairUp :: "(string \<Rightarrow> string) \<Rightarrow> string list \<Rightarrow> string list" where
  "spec_pairUp H (a # b # rest) = H (a @ b) # spec_pairUp H rest"
| "spec_pairUp H [a] = [a]"
| "spec_pairUp H [] = []"

lemma length_spec_pairUp: "length (spec_pairUp H xs) = (length xs + 1) div 2"
  by (induction H xs rule: spec_pairUp.induct) auto

function spec_reduce :: "(string \<Rightarrow> string) \<Rightarrow> string list \<Rightarrow> string list" where
  "spec_reduce H level = (if length level \<le> 1 then level else spec_reduce H (spec_pairUp H level))"
  by pat_completeness auto
termination
  by (relation "measure (\<lambda>(H, level). length level)") (auto simp: length_spec_pairUp)

declare spec_reduce.simps [simp del]

definition spec_merkleRoot :: "(string \<Rightarrow> string) \<Rightarrow> string list \<Rightarrow> string" where
  "spec_merkleRoot H items = spec_reduce H (map H items) ! 0"

text \<open>The other policy for an odd level: the unpaired element is paired with itself.\<close>

fun dup_pairUp :: "(string \<Rightarrow> string) \<Rightarrow> string list \<Rightarrow> string list" where
  "dup_pairUp H (a # b # rest) = H (a @ b) # dup_pairUp H rest"
| "dup_pairUp H [a] = [H (a @ a)]"
| "dup_pairUp H [] = []"

lemma length_dup_pairUp: "length (dup_pairUp H xs) = (length xs + 1) div 2"
  by (induction H xs rule: dup_pairUp.induct) auto

function dup_reduce :: "(string \<Rightarrow> string) \<Rightarrow> string list \<Rightarrow> string list" where
  "dup_reduce H level = (if length level \<le> 1 then level else dup_reduce H (dup_pairUp H level))"
  by pat_completeness auto
termination
  by (relation "measure (\<lambda>(H, level). length level)") (auto simp: length_dup_pairUp)

declare dup_reduce.simps [simp del]

definition dup_merkleRoot :: "(string \<Rightarrow> string) \<Rightarrow> string list \<Rightarrow> string" where
  "dup_merkleRoot H items = dup_reduce H (map H items) ! 0"

text \<open>A hash that shows its argument, to evaluate the two methods.\<close>

definition H0 :: "string \<Rightarrow> string" where
  "H0 s = ''<'' @ s @ ''>''"

section \<open>ConsensusEngine.ts\<close>

text \<open>
  A JavaScript \<open>Set\<close> keeps its elements in insertion order without repetition: a
  list to which \<open>add\<close> appends an element that is not yet there.
\<close>

type_synonym 'a jsset = "'a list"

definition set_has :: "'a jsset \<Rightarrow> 'a \<Rightarrow> bool" where
  "set_has s x = (x \<in> set s)"

definition set_add :: "'a jsset \<Rightarrow> 'a \<Rightarrow> 'a jsset" where
  "set_add s x = (if x \<in> set s then s else s @ [x])"

definition set_size :: "'a jsset \<Rightarrow> nat" where
  "set_size s = length s"

definition new_Set :: "'a list \<Rightarrow> 'a jsset" where
  "new_Set xs = fold (\<lambda>x s. set_add s x) xs []"

text \<open>
  The fields of a block that the engine reads (\<open>Block\<close> of \<open>./types\<close> is not among the
  sources): \<open>calculateBlockHash\<close> hashes the JSON text of prevHash, timestamp, the ids
  of the transactions, and height.
\<close>

record ce_block =
  ce_prevHash :: string
  ce_timestamp :: int
  ce_transactionIds :: "string list"
  ce_height :: int

text \<open>
  From \<open>./crypto-utils\<close> and \<open>crypto-js\<close>: \<open>validateBlock(block)\<close> and
  \<open>verifySignature(hash, signature, key)\<close>, either of which may throw, and SHA-256.
\<close>

record ce_env =
  ce_validateBlock :: "ce_block \<Rightarrow> js_error + bool"
  ce_verifySignature :: "string \<Rightarrow> string \<Rightarrow> string \<Rightarrow> js_error + bool"
  ce_sha256 :: "string \<times> int \<times> string list \<times> int \<Rightarrow> string"

record ce_state =
  ce_validators :: "string jsset"
  ce_requiredValidations :: int
  ce_pendingBlocks :: "(string, ce_block) jsmap"
  ce_validations :: "(string, string jsset) jsmap"

definition new_ConsensusEngine :: "string list \<Rightarrow> int \<Rightarrow> js_error + ce_state" where
  "new_ConsensusEngine validators requiredValidations =
     (if requiredValidations > int (length validators)
      then Inl (JsError ConsensusError ''Required validations cannot exceed validator count'')
      else Inr \<lparr> ce_validators = new_Set validators,
                 ce_requiredValidations = requiredValidations,
                 ce_pendingBlocks = [], ce_validations = [] \<rparr>)"

definition calculateBlockHash_CE :: "ce_env \<Rightarrow> ce_block \<Rightarrow> string" where
  "calculateBlockHash_CE env block =
     ce_sha256 env (ce_prevHash block, ce_timestamp block, ce_transactionIds block, ce_height block)"

text \<open>
  Every error thrown inside \<open>proposeBlock\<close> and \<open>validateBlock\<close> is caught, logged,
  and turned into the result \<open>false\<close>.
\<close>

definition proposeBlock :: "ce_env \<Rightarrow> ce_state \<Rightarrow> ce_block \<Rightarrow> bool \<times> ce_state" where
  "proposeBlock env s block =
     (let blockHash = calculateBlockHash_CE env block in
      if map_has (ce_pendingBlocks s) blockHash then (False, s)
      else case ce_validateBlock env block of
        Inl e \<Rightarrow> (False, s)
      | Inr ok \<Rightarrow>
          if \<not> ok then (False, s)
          else (True, s \<lparr> ce_pendingBlocks := map_set (ce_pendingBlocks s) blockHash block,
                          ce_validations := map_set (ce_validations s) blockHash (new_Set []) \<rparr>))"

definition validateBlock_CE ::
  "ce_env \<Rightarrow> ce_state \<Rightarrow> string \<Rightarrow> string \<Rightarrow> string \<Rightarrow> bool \<times> ce_state" where
  "validateBlock_CE env s blockHash validatorKey signature =
     (if \<not> set_has (ce_validators s) validatorKey then (False, s)
      else case map_get (ce_pendingBlocks s) blockHash of
        None \<Rightarrow> (False, s)
      | Some block \<Rightarrow>
         (case ce_verifySignature env blockHash signature validatorKey of
            Inl e \<Rightarrow> (False, s)
          | Inr ok \<Rightarrow>
              if \<not> ok then (False, s)
              else case map_get (ce_validations s) blockHash of
                None \<Rightarrow> (False, s)
              | Some blockValidations \<Rightarrow>
                  (let blockValidations' = set_add blockValidations validatorKey
                   in (int (set_size blockValidations') \<ge> ce_requiredValidations s,
                       s \<lparr> ce_validations :=
                             map_set (ce_validations s) blockHash blockValidations' \<rparr>))))"

text \<open>
  \<open>getFinalizedBlocks\<close> walks the entries of \<open>validations\<close> in insertion order and
  deletes the entry it stands on, which does not disturb the iteration of a \<open>Map\<close>.
\<close>

fun finalizeLoop ::
  "(string \<times> string jsset) list \<Rightarrow> ce_state \<Rightarrow> ce_block list \<Rightarrow> ce_block list \<times> ce_state" where
  "finalizeLoop [] s finalizedBlocks = (finalizedBlocks, s)"
| "finalizeLoop ((hash, validations) # rest) s finalizedBlocks =
     (if int (set_size validations) \<ge> ce_requiredValidations s
      then (case map_get (ce_pendingBlocks s) hash of
              Some block \<Rightarrow>
                finalizeLoop rest
                  (s \<lparr> ce_pendingBlocks := map_delete (ce_pendingBlocks s) hash,
                       ce_validations := map_delete (ce_validations s) hash \<rparr>)
                  (finalizedBlocks @ [block])
            | None \<Rightarrow> finalizeLoop rest s finalizedBlocks)
      else finalizeLoop rest s finalizedBlocks)"

definition getFinalizedBlocks :: "ce_state \<Rightarrow> ce_block list \<times> ce_state" where
  "getFinalizedBlocks s = finalizeLoop (ce_validations s) s []"

definition clearPendingBlocks :: "ce_state \<Rightarrow> ce_state" where
  "clearPendingBlocks s = s \<lparr> ce_pendingBlocks := [], ce_validations := [] \<rparr>"

text \<open>
  The states of an engine: the one the constructor builds, and every state that a call
  of a public method leaves behind.
\<close>

inductive reachable :: "ce_env \<Rightarrow> ce_state \<Rightarrow> bool" for env :: ce_env where
  constructed: "new_ConsensusEngine validators requiredValidations = Inr s \<Longrightarrow> reachable env s"
| proposed: "reachable env s \<Longrightarrow> proposeBlock env s block = (r, s') \<Longrightarrow> reachable env s'"
| validated:
    "reachable env s \<Longrightarrow> validateBlock_CE env s blockHash validatorKey signature = (r, s')
     \<Longrightarrow> reachable env s'"
| finalized: "reachable env s \<Longrightarrow> getFinalizedBlocks s = (blocks, s') \<Longrightarrow> reachable env s'"
| cleared: "reachable env s \<Longrightarrow> reachable env (clearPendingBlocks s)"

text \<open>The number of attestations collected for a pending block hash.\<close>

definition attestations :: "ce_state \<Rightarrow> string \<Rightarrow> nat" where
  "attestations s blockHash =
     (case map_get (ce_validations s) blockHash of Some v \<Rightarrow> set_size v | None \<Rightarrow> 0)"

text \<open>
  The scenario of the specification: validators A, B and C, quorum 2, a block X that
  every check accepts.
\<close>

definition ce_env0 :: ce_env where
  "ce_env0 = \<lparr> ce_validateBlock = (\<lambda>b. Inr True),
               ce_verifySignature = (\<lambda>h sig k. Inr True),
               ce_sha256 = (\<lambda>(p, t, ids, h). ''hash-of-'' @ p) \<rparr>"

definition ce_blockX :: ce_block where
  "ce_blockX = \<lparr> ce_prevHash = ''genesis'', ce_timestamp = 1, ce_transactionIds = [], ce_height = 1 \<rparr>"

definition ce_state0 :: ce_state where
  "ce_state0 = \<lparr> ce_validators = [''A'', ''B'', ''C''], ce_requiredValidations = 2,
                 ce_pendingBlocks = [], ce_validations = [] \<rparr>"

definition ce_state1 :: ce_state where
  "ce_state1 = snd (proposeBlock ce_env0 ce_state0 ce_blockX)"

definition ce_state2 :: ce_state where
  "ce_state2 = snd (validateBlock_CE ce_env0 ce_state1 ''hash-of-genesis'' ''A'' ''sigA'')"

definition ce_state3 :: ce_state where
  "ce_state3 = snd (validateBlock_CE ce_env0 ce_state2 ''hash-of-genesis'' ''B'' ''sigB'')"

section \<open>StateManager.ts\<close>

subsection \<open>The collaborators: cache and persistent store\<close>

text \<open>
  Modelled from the spec: \<open>LRUCache\<close> (\<open>./cache\<close> is not among the sources) is a
  bounded cache with least-recently-used eviction. The entries are kept most recently
  used first; \<open>get\<close> moves the entry it finds to the front, \<open>set\<close> puts the entry at
  the front and drops what no longer fits the capacity.
\<close>

record ('k, 'v) lru =
  lru_capacity :: nat
  lru_items :: "('k \<times> 'v) list"

definition new_LRUCache :: "nat \<Rightarrow> ('k, 'v) lru" where
  "new_LRUCache capacity = \<lparr> lru_capacity = capacity, lru_items = [] \<rparr>"

definition lru_get :: "('k, 'v) lru \<Rightarrow> 'k \<Rightarrow> 'v option \<times> ('k, 'v) lru" where
  "lru_get c k =
     (case map_of (lru_items c) k of
        None \<Rightarrow> (None, c)
      | Some v \<Rightarrow> (Some v, c \<lparr> lru_items := (k, v) # filter (\<lambda>p. fst p \<noteq> k) (lru_items c) \<rparr>))"

definition lru_set :: "('k, 'v) lru \<Rightarrow> 'k \<Rightarrow> 'v \<Rightarrow> ('k, 'v) lru" where
  "lru_set c k v =
     c \<lparr> lru_items := take (lru_capacity c) ((k, v) # filter (\<lambda>p. fst p \<noteq> k) (lru_items c)) \<rparr>"

text \<open>
  JavaScript numbers are IEEE doubles. The nonce of an account is a number that holds
  an integer (it starts at 0 and moves by 1), so it is an integer here, and \<open>+\<close> and
  \<open>-\<close> on such numbers are the exact operation followed by rounding to the nearest
  double, ties to the even mantissa: exact up to \<open>2^53\<close>, and beyond that to 53
  significant bits.
\<close>

function bit_length :: "nat \<Rightarrow> nat" where
  "bit_length n = (if n = 0 then 0 else Suc (bit_length (n div 2)))"
  by pat_completeness auto
termination
  by (relation "measure (\<lambda>n. n)") auto

declare bit_length.simps [simp del]

definition round_to_double :: "int \<Rightarrow> int" where
  "round_to_double x =
     (if \<bar>x\<bar> \<le> 2 ^ 53 then x
      else (let e = bit_length (nat \<bar>x\<bar>) - 53;
                q = \<bar>x\<bar> div 2 ^ e;
                r = \<bar>x\<bar> mod 2 ^ e;
                half = 2 ^ (e - 1);
                m = (if r > half \<or> (r = half \<and> odd q) then q + 1 else q)
            in sgn x * m * 2 ^ e))"

definition js_plus :: "int \<Rightarrow> int \<Rightarrow> int" where
  "js_plus a b = round_to_double (a + b)"

definition js_minus :: "int \<Rightarrow> int \<Rightarrow> int" where
  "js_minus a b = round_to_double (a - b)"

text \<open>
  The fields of \<open>Account\<close>, \<open>Transaction\<close> and \<open>Block\<close> (\<open>./types\<close> is not among the
  sources) that the state manager reads. Balances, values and fees are \<open>bigint\<close>,
  unbounded integers; the nonce is a number.
\<close>

record account =
  acc_address :: string
  acc_balance :: int
  acc_nonce :: int
  acc_codeHash :: string
  acc_storageRoot :: string

record sm_transaction =
  sm_from :: string
  sm_to :: string
  sm_value :: int
  sm_fee :: int

record sm_block =
  smb_hash :: string
  smb_parentHash :: string
  smb_transactions :: "sm_transaction list"

text \<open>
  Accounts and blocks are JavaScript objects: the caches hold references to them, and
  an assignment to a field is seen through every reference. Objects live in two heaps,
  from reference to value, each with the next free reference.

  Modelled from the spec: \<open>DatabaseClient\<close> (\<open>./database\<close> is not among the sources) is
  the persistent store, a key-value interface with read-your-writes consistency. It
  keeps values, not references: a write stores the value the object has at that
  moment, a read builds a new object. Its operations succeed.
\<close>

record sm_state =
  sm_stateCache :: "(string, nat) lru"
  sm_blockCache :: "(string, nat) lru"
  sm_dbAccounts :: "string \<Rightarrow> account option"
  sm_dbBlocks :: "string \<Rightarrow> sm_block option"
  sm_currentBlock :: "nat option"
  sm_accountHeap :: "nat \<Rightarrow> account"
  sm_accountNext :: nat
  sm_blockHeap :: "nat \<Rightarrow> sm_block"
  sm_blockNext :: nat

definition new_account :: "sm_state \<Rightarrow> account \<Rightarrow> nat \<times> sm_state" where
  "new_account s a =
     (sm_accountNext s,
      s \<lparr> sm_accountHeap := (sm_accountHeap s)(sm_accountNext s := a),
          sm_accountNext := Suc (sm_accountNext s) \<rparr>)"

definition new_block :: "sm_state \<Rightarrow> sm_block \<Rightarrow> nat \<times> sm_state" where
  "new_block s b =
     (sm_blockNext s,
      s \<lparr> sm_blockHeap := (sm_blockHeap s)(sm_blockNext s := b),
          sm_blockNext := Suc (sm_blockNext s) \<rparr>)"

subsection \<open>The methods\<close>

text \<open>
  The constructor, over a store with the given accounts and blocks. The block cache
  always has capacity 100.
\<close>

definition new_StateManager ::
  "(string \<Rightarrow> account option) \<Rightarrow> (string \<Rightarrow> sm_block option) \<Rightarrow> nat \<Rightarrow> sm_state" where
  "new_StateManager dbAccounts dbBlocks cacheSize =
     \<lparr> sm_stateCache = new_LRUCache cacheSize, sm_blockCache = new_LRUCache 100,
       sm_dbAccounts = dbAccounts, sm_dbBlocks = dbBlocks, sm_currentBlock = None,
       sm_accountHeap = (\<lambda>r. \<lparr> acc_address = [], acc_balance = 0, acc_nonce = 0,
                                 acc_codeHash = [], acc_storageRoot = [] \<rparr>),
       sm_accountNext = 0,
       sm_blockHeap = (\<lambda>r. \<lparr> smb_hash = [], smb_parentHash = [], smb_transactions = [] \<rparr>),
       sm_blockNext = 0 \<rparr>"

text \<open>The SHA-256 hex digest of the empty string.\<close>

definition sha256_empty :: string where
  "sha256_empty = ''e3b0c44298fc1c149afbf4c8996fb92427ae41e4649b934ca495991b7852b855''"

definition createEmptyAccount :: "string \<Rightarrow> account" where
  "createEmptyAccount address =
     \<lparr> acc_address = address, acc_balance = 0, acc_nonce = 0,
       acc_codeHash = sha256_empty, acc_storageRoot = sha256_empty \<rparr>"

text \<open>
  \<open>getAccount\<close> returns a reference: the cached object, or a new object read from the
  store and put in the cache, or a new empty account, which is not put in the cache.
\<close>

definition getAccount :: "sm_state \<Rightarrow> string \<Rightarrow> nat \<times> sm_state" where
  "getAccount s address =
     (case lru_get (sm_stateCache s) address of
        (Some cachedAccount, c) \<Rightarrow> (cachedAccount, s \<lparr> sm_stateCache := c \<rparr>)
      | (None, c) \<Rightarrow>
          (case sm_dbAccounts s address of
             None \<Rightarrow> new_account s (createEmptyAccount address)
           | Some a \<Rightarrow>
               (let (account, s1) = new_account s a
                in (account, s1 \<lparr> sm_stateCache := lru_set (sm_stateCache s1) address account \<rparr>))))"

definition validateAccount :: "account \<Rightarrow> js_error + unit" where
  "validateAccount account =
     (if acc_balance account < 0 \<or> acc_nonce account < 0
      then Inl (JsError ValidationError ''Invalid account state'')
      else Inr ())"

text \<open>
  A method that returns nothing yields the error it throws, if any, with the state it
  leaves: what was written before a \<open>throw\<close> stays written.
\<close>

definition updateAccount :: "sm_state \<Rightarrow> string \<Rightarrow> nat \<Rightarrow> js_error option \<times> sm_state" where
  "updateAccount s address account =
     (case validateAccount (sm_accountHeap s account) of
        Inl e \<Rightarrow> (Some (JsError StateError (''Failed to update account: '' @ message e)), s)
      | Inr _ \<Rightarrow>
          (None, s \<lparr> sm_dbAccounts := (sm_dbAccounts s)(address \<mapsto> sm_accountHeap s account),
                     sm_stateCache := lru_set (sm_stateCache s) address account \<rparr>))"

definition set_balance :: "sm_state \<Rightarrow> nat \<Rightarrow> int \<Rightarrow> sm_state" where
  "set_balance s r b = s \<lparr> sm_accountHeap := (sm_accountHeap s)(r := (sm_accountHeap s r) \<lparr> acc_balance := b \<rparr>) \<rparr>"

definition set_nonce :: "sm_state \<Rightarrow> nat \<Rightarrow> int \<Rightarrow> sm_state" where
  "set_nonce s r n = s \<lparr> sm_accountHeap := (sm_accountHeap s)(r := (sm_accountHeap s r) \<lparr> acc_nonce := n \<rparr>) \<rparr>"

definition applyTransaction :: "sm_state \<Rightarrow> sm_transaction \<Rightarrow> js_error option \<times> sm_state" where
  "applyTransaction s tx =
     (let (sender, s1) = getAccount s (sm_from tx);
          (recipient, s2) = getAccount s1 (sm_to tx)
      in if acc_balance (sm_accountHeap s2 sender) < sm_value tx + sm_fee tx
         then (Some (JsError StateError (''Transaction application failed: '' @ ''Insufficient balance'')), s2)
         else
           (let s3 = set_balance s2 sender (acc_balance (sm_accountHeap s2 sender) - (sm_value tx + sm_fee tx));
                s4 = set_nonce s3 sender (js_plus (acc_nonce (sm_accountHeap s3 sender)) 1);
                s5 = set_balance s4 recipient (acc_balance (sm_accountHeap s4 recipient) + sm_value tx)
            in case updateAccount s5 (sm_from tx) sender of
                 (Some e, s6) \<Rightarrow>
                   (Some (JsError StateError (''Transaction application failed: '' @ message e)), s6)
               | (None, s6) \<Rightarrow>
                   (case updateAccount s6 (sm_to tx) recipient of
                      (Some e, s7) \<Rightarrow>
                        (Some (JsError StateError (''Transaction application failed: '' @ message e)), s7)
                    | (None, s7) \<Rightarrow> (None, s7))))"

text \<open>The loop of \<open>commitBlock\<close>: it stops at the first transaction that throws.\<close>

fun applyAll :: "sm_state \<Rightarrow> sm_transaction list \<Rightarrow> js_error option \<times> sm_state" where
  "applyAll s [] = (None, s)"
| "applyAll s (tx # txs) =
     (case applyTransaction s tx of
        (Some e, s') \<Rightarrow> (Some e, s')
      | (None, s') \<Rightarrow> applyAll s' txs)"

text \<open>
  \<open>commitBlock\<close> receives a block object from its caller; \<open>new_block\<close> stands for that
  object, and its reference is what \<open>currentBlock\<close> and the block cache then hold.
\<close>

definition commitBlock :: "sm_state \<Rightarrow> sm_block \<Rightarrow> js_error option \<times> sm_state" where
  "commitBlock s b =
     (let (block, s0) = new_block s b
      in case applyAll s0 (smb_transactions (sm_blockHeap s0 block)) of
           (Some e, s1) \<Rightarrow> (Some (JsError StateError (''Block commit failed: '' @ message e)), s1)
         | (None, s1) \<Rightarrow>
             (None, s1 \<lparr> sm_currentBlock := Some block,
                         sm_blockCache := lru_set (sm_blockCache s1) (smb_hash (sm_blockHeap s1 block)) block,
                         sm_dbBlocks := (sm_dbBlocks s1)(smb_hash (sm_blockHeap s1 block) \<mapsto> sm_blockHeap s1 block) \<rparr>))"

text \<open>
  \<open>getBlock\<close> returns the cached block object or a new object read from the store
  (which it does not cache), or \<open>null\<close> when the store has no such block.
\<close>

definition getBlock :: "sm_state \<Rightarrow> string \<Rightarrow> nat option \<times> sm_state" where
  "getBlock s hash =
     (case lru_get (sm_blockCache s) hash of
        (Some cached, c) \<Rightarrow> (Some cached, s \<lparr> sm_blockCache := c \<rparr>)
      | (None, c) \<Rightarrow>
          (case sm_dbBlocks s hash of
             None \<Rightarrow> (None, s)
           | Some b \<Rightarrow> (let (block, s1) = new_block s b in (Some block, s1))))"

definition revertTransaction :: "sm_state \<Rightarrow> sm_transaction \<Rightarrow> js_error option \<times> sm_state" where
  "revertTransaction s tx =
     (let (sender, s1) = getAccount s (sm_from tx);
          (recipient, s2) = getAccount s1 (sm_to tx);
          s3 = set_balance s2 sender (acc_balance (sm_accountHeap s2 sender) + (sm_value tx + sm_fee tx));
          s4 = set_nonce s3 sender (js_minus (acc_nonce (sm_accountHeap s3 sender)) 1);
          s5 = set_balance s4 recipient (acc_balance (sm_accountHeap s4 recipient) - sm_value tx)
      in case updateAccount s5 (sm_from tx) sender of
           (Some e, s6) \<Rightarrow> (Some e, s6)
         | (None, s6) \<Rightarrow> updateAccount s6 (sm_to tx) recipient)"

fun revertAll :: "sm_state \<Rightarrow> sm_transaction list \<Rightarrow> js_error option \<times> sm_state" where
  "revertAll s [] = (None, s)"
| "revertAll s (tx # txs) =
     (case revertTransaction s tx of
        (Some e, s') \<Rightarrow> (Some e, s')
      | (None, s') \<Rightarrow> revertAll s' txs)"

text \<open>
  \<open>block.transactions.reverse()\<close> reverses the array of the block object in place and
  returns that array; the loop then runs over it.
\<close>

definition reverse_transactions :: "sm_state \<Rightarrow> nat \<Rightarrow> sm_state" where
  "reverse_transactions s block =
     s \<lparr> sm_blockHeap := (sm_blockHeap s)
           (block := (sm_blockHeap s block) \<lparr> smb_transactions := rev (smb_transactions (sm_blockHeap s block)) \<rparr>) \<rparr>"

definition revertBlock :: "sm_state \<Rightarrow> string \<Rightarrow> js_error option \<times> sm_state" where
  "revertBlock s blockHash =
     (case getBlock s blockHash of
        (None, s1) \<Rightarrow>
          (Some (JsError StateError
             (''Block revert failed: '' @ ''Cannot read properties of null (reading 'transactions')'')), s1)
      | (Some block, s1) \<Rightarrow>
          (let s2 = reverse_transactions s1 block
           in case revertAll s2 (smb_transactions (sm_blockHeap s2 block)) of
                (Some e, s3) \<Rightarrow> (Some (JsError StateError (''Block revert failed: '' @ message e)), s3)
              | (None, s3) \<Rightarrow>
                  (let (parent, s4) = getBlock s3 (smb_parentHash (sm_blockHeap s3 block))
                   in (None, s4 \<lparr> sm_currentBlock := parent \<rparr>))))"

text \<open>The account that \<open>getAccount\<close> returns for an address, as a value.\<close>

definition accountView :: "sm_state \<Rightarrow> string \<Rightarrow> account" where
  "accountView s address = (let (r, s') = getAccount s address in sm_accountHeap s' r)"

text \<open>
  A store with one funded account, and blocks over it, to evaluate the state manager.
\<close>

definition alice100 :: account where
  "alice100 = \<lparr> acc_address = ''alice'', acc_balance = 100, acc_nonce = 0,
                acc_codeHash = sha256_empty, acc_storageRoot = sha256_empty \<rparr>"

definition sm_state0 :: sm_state where
  "sm_state0 = new_StateManager ((\<lambda>a. None)(''alice'' \<mapsto> alice100)) (\<lambda>h. None) 1000"

definition sm_pay10 :: sm_transaction where
  "sm_pay10 = \<lparr> sm_from = ''alice'', sm_to = ''bob'', sm_value = 10, sm_fee = 1 \<rparr>"

definition sm_pay1000 :: sm_transaction where
  "sm_pay1000 = \<lparr> sm_from = ''alice'', sm_to = ''bob'', sm_value = 1000, sm_fee = 1 \<rparr>"

definition sm_pay20 :: sm_transaction where
  "sm_pay20 = \<lparr> sm_from = ''alice'', sm_to = ''carol'', sm_value = 20, sm_fee = 2 \<rparr>"

definition sm_block_bad :: sm_block where
  "sm_block_bad = \<lparr> smb_hash = ''b1'', smb_parentHash = ''b0'', smb_transactions = [sm_pay10, sm_pay1000] \<rparr>"

definition sm_block_good :: sm_block where
  "sm_block_good = \<lparr> smb_hash = ''b1'', smb_parentHash = ''b0'', smb_transactions = [sm_pay10, sm_pay20] \<rparr>"

text \<open>
  A store whose account has the nonce \<open>2^53\<close>, with a block of one payment; and a
  block whose one transaction moves nothing from an address the store does not know
  to that same address.
\<close>

definition sm_state_max :: sm_state where
  "sm_state_max =
     new_StateManager ((\<lambda>a. None)(''alice'' \<mapsto> alice100 \<lparr> acc_nonce := 9007199254740992 \<rparr>))
       (\<lambda>h. None) 1000"

definition sm_block_one :: sm_block where
  "sm_block_one = \<lparr> smb_hash = ''b1'', smb_parentHash = ''b0'', smb_transactions = [sm_pay10] \<rparr>"

definition sm_self0 :: sm_transaction where
  "sm_self0 = \<lparr> sm_from = ''dave'', sm_to = ''dave'', sm_value = 0, sm_fee = 0 \<rparr>"

definition sm_block_self0 :: sm_block where
  "sm_block_self0 = \<lparr> smb_hash = ''b1'', smb_parentHash = ''b0'', smb_transactions = [sm_self0] \<rparr>"

subsection \<open>Well-formed states of the state manager\<close>

text \<open>
  The account side of a state is well formed when the cache has room for at least one
  entry, holds each address and each object at most once, and holds allocated objects
  only; it is coherent when every cached object has the value the store holds for its
  address (the store is authoritative); the store is valid when every stored account
  has a non-negative balance and nonce, which is what \<open>updateAccount\<close> enforces on
  every write.
\<close>

definition cache_wf :: "sm_state \<Rightarrow> bool" where
  "cache_wf s \<longleftrightarrow>
     0 < lru_capacity (sm_stateCache s)
     \<and> distinct (map fst (lru_items (sm_stateCache s)))
     \<and> distinct (map snd (lru_items (sm_stateCache s)))
     \<and> (\<forall>p \<in> set (lru_items (sm_stateCache s)). snd p < sm_accountNext s)"

definition coherent :: "sm_state \<Rightarrow> bool" where
  "coherent s \<longleftrightarrow>
     (\<forall>p \<in> set (lru_items (sm_stateCache s)). sm_dbAccounts s (fst p) = Some (sm_accountHeap s (snd p)))"

definition valid_account :: "account \<Rightarrow> bool" where
  "valid_account a \<longleftrightarrow> 0 \<le> acc_balance a \<and> 0 \<le> acc_nonce a"

definition db_valid :: "sm_state \<Rightarrow> bool" where
  "db_valid s \<longleftrightarrow> (\<forall>a acc. sm_dbAccounts s a = Some acc \<longrightarrow> valid_account acc)"

definition sm_inv :: "sm_state \<Rightarrow> bool" where
  "sm_inv s \<longleftrightarrow> cache_wf s \<and> coherent s \<and> db_valid s \<and> 0 < lru_capacity (sm_blockCache s)"

text \<open>
  The nonces of a state leave room for \<open>k\<close> increments when \<open>k\<close> more steps keep
  every one of them within \<open>2^53\<close>, where numbers count exactly.
\<close>

definition nonce_room :: "nat \<Rightarrow> sm_state \<Rightarrow> bool" where
  "nonce_room k s \<longleftrightarrow>
     int k \<le> 2 ^ 53 \<and> (\<forall>a acc. sm_dbAccounts s a = Some acc \<longrightarrow> acc_nonce acc + int k \<le> 2 ^ 53)"

text \<open>
  A transaction of the data model: a positive amount and a non-negative fee.
\<close>

definition wf_transaction :: "sm_transaction \<Rightarrow> bool" where
  "wf_transaction tx \<longleftrightarrow> 0 < sm_value tx \<and> 0 \<le> sm_fee tx"

text \<open>The account the store holds for an address: the stored one, or the empty account.\<close>

definition dbview :: "sm_state \<Rightarrow> string \<Rightarrow> account" where
  "dbview s a = (case sm_dbAccounts s a of Some acc \<Rightarrow> acc | None \<Rightarrow> createEmptyAccount a)"

text \<open>The block side of a state, which no account operation touches.\<close>

definition block_part ::
  "sm_state \<Rightarrow> (string, nat) lru \<times> (string \<Rightarrow> sm_block option) \<times> nat option \<times> (nat \<Rightarrow> sm_block) \<times> nat" where
  "block_part s = (sm_blockCache s, sm_dbBlocks s, sm_currentBlock s, sm_blockHeap s, sm_blockNext s)"

text \<open>The account side of a state, which no block operation touches.\<close>

definition account_part ::
  "sm_state \<Rightarrow> (string, nat) lru \<times> (string \<Rightarrow> account option) \<times> (nat \<Rightarrow> account) \<times> nat" where
  "account_part s = (sm_stateCache s, sm_dbAccounts s, sm_accountHeap s, sm_accountNext s)"

text \<open>What a transaction does to the two accounts, and its inverse.\<close>

definition debit :: "sm_transaction \<Rightarrow> account \<Rightarrow> account" where
  "debit tx a = a \<lparr> acc_balance := acc_balance a - (sm_value tx + sm_fee tx), acc_nonce := js_plus (acc_nonce a) 1 \<rparr>"

definition credit :: "sm_transaction \<Rightarrow> account \<Rightarrow> account" where
  "credit tx a = a \<lparr> acc_balance := acc_balance a + sm_value tx \<rparr>"

definition undebit :: "sm_transaction \<Rightarrow> account \<Rightarrow> account" where
  "undebit tx a = a \<lparr> acc_balance := acc_balance a + (sm_value tx + sm_fee tx), acc_nonce := js_minus (acc_nonce a) 1 \<rparr>"

definition uncredit :: "sm_transaction \<Rightarrow> account \<Rightarrow> account" where
  "uncredit tx a = a \<lparr> acc_balance := acc_balance a - sm_value tx \<rparr>"

definition applyV :: "sm_transaction \<Rightarrow> (string \<Rightarrow> account) \<Rightarrow> (string \<Rightarrow> account)" where
  "applyV tx V =
     (let V1 = V(sm_from tx := debit tx (V (sm_from tx)))
      in V1(sm_to tx := credit tx (V1 (sm_to tx))))"

definition revertV :: "sm_transaction \<Rightarrow> (string \<Rightarrow> account) \<Rightarrow> (string \<Rightarrow> account)" where
  "revertV tx V =
     (let V1 = V(sm_from tx := undebit tx (V (sm_from tx)))
      in V1(sm_to tx := uncredit tx (V1 (sm_to tx))))"

text \<open>
  Notions used in the proofs. An object \<open>r\<close> is owned by the address \<open>a\<close> when the
  cache holds it for no other address. \<open>getAccount_post\<close> is what \<open>getAccount\<close>
  establishes on a well-formed state. A state is coherent except for a set of objects
  when every other cached object agrees with the store. \<open>write_through\<close> is the
  effect of a successful \<open>updateAccount\<close>.
\<close>

definition own :: "sm_state \<Rightarrow> string \<Rightarrow> nat \<Rightarrow> bool" where
  "own s a r \<longleftrightarrow> (\<forall>p \<in> set (lru_items (sm_stateCache s)). snd p = r \<longrightarrow> fst p = a)"

definition getAccount_post :: "sm_state \<Rightarrow> string \<Rightarrow> nat \<Rightarrow> sm_state \<Rightarrow> bool" where
  "getAccount_post s a r s' \<longleftrightarrow>
     cache_wf s' \<and> coherent s' \<and> sm_dbAccounts s' = sm_dbAccounts s
     \<and> block_part s' = block_part s
     \<and> sm_accountHeap s' r = dbview s a
     \<and> r < sm_accountNext s' \<and> sm_accountNext s \<le> sm_accountNext s'
     \<and> (\<forall>y. y < sm_accountNext s \<longrightarrow> sm_accountHeap s' y = sm_accountHeap s y)
     \<and> set (lru_items (sm_stateCache s')) \<subseteq> insert (a, r) (set (lru_items (sm_stateCache s)))
     \<and> ((a, r) \<in> set (lru_items (sm_stateCache s'))
          \<or> (sm_dbAccounts s a = None \<and> r = sm_accountNext s))
     \<and> (r = sm_accountNext s \<or> (a, r) \<in> set (lru_items (sm_stateCache s)))
     \<and> (\<forall>r'. (a, r') \<in> set (lru_items (sm_stateCache s)) \<longrightarrow> r = r')"

definition coherent_except :: "sm_state \<Rightarrow> nat set \<Rightarrow> bool" where
  "coherent_except s R \<longleftrightarrow>
     (\<forall>p \<in> set (lru_items (sm_stateCache s)).
         snd p \<notin> R \<longrightarrow> sm_dbAccounts s (fst p) = Some (sm_accountHeap s (snd p)))"

definition write_through :: "sm_state \<Rightarrow> string \<Rightarrow> nat \<Rightarrow> sm_state" where
  "write_through s a r =
     s \<lparr> sm_dbAccounts := (sm_dbAccounts s)(a \<mapsto> sm_accountHeap s r),
         sm_stateCache := lru_set (sm_stateCache s) a r \<rparr>"

definition db_grows :: "sm_state \<Rightarrow> sm_state \<Rightarrow> bool" where
  "db_grows s s' \<longleftrightarrow> (\<forall>a. sm_dbAccounts s a \<noteq> None \<longrightarrow> sm_dbAccounts s' a \<noteq> None)"

text \<open>The three assignments of \<open>applyTransaction\<close> and of \<open>revertTransaction\<close> on the heap.\<close>

definition apply_heap :: "sm_transaction \<Rightarrow> (nat \<Rightarrow> account) \<Rightarrow> nat \<Rightarrow> nat \<Rightarrow> (nat \<Rightarrow> account)" where
  "apply_heap tx H r1 r2 = (let H1 = H(r1 := debit tx (H r1)) in H1(r2 := credit tx (H1 r2)))"

definition revert_heap :: "sm_transaction \<Rightarrow> (nat \<Rightarrow> account) \<Rightarrow> nat \<Rightarrow> nat \<Rightarrow> (nat \<Rightarrow> account)" where
  "revert_heap tx H r1 r2 = (let H1 = H(r1 := undebit tx (H r1)) in H1(r2 := uncredit tx (H1 r2)))"

text \<open>The state after a successful commit of \<open>sm_block_good\<close>.\<close>

definition sm_state1 :: sm_state where
  "sm_state1 = snd (commitBlock sm_state0 sm_block_good)"

chapter \<open>Properties of the code\<close>

section \<open>Order of the checks in validateTransaction\<close>






text \<open>
  Where the transaction does serialize (\<open>tv_env1\<close>), \<open>validateSignature\<close> is called
  before \<open>validateAmount\<close>, and on the same transaction the signature failure is the
  answer.
\<close>

lemma validateTransaction_TV_serializing:
  "validateTransaction_TV tv_env1 tv_tx0 None
     = Inl (JsError ValidationError ''Signature validation failed: Invalid transaction signature'')"
  by (simp add: validateTransaction_TV_def validateBasics_def validateSignature_def
      calculateTxHash_def rethrow_TV_def tv_env0_def tv_env1_def tv_tx0_def
      missing_fields_def maxTxSize_def minFee_def)



section \<open>A wrong stored hash in validateBlock\<close>

text \<open>
  C6, as stated: a block whose stored hash differs from the recomputed one is answered
  with the hash error whatever its other fields are. It fails: the structure, size and
  timestamp checks come first and return their own error. The block
  \<open>bv_block_future\<close> is well-formed, its stored hash \<open>00bad\<close> is not the recomputed
  \<open>00c0ffee\<close>, and its timestamp lies more than two minutes ahead of the clock: the
  answer is the timestamp error.
\<close>

theorem C6_hash_error_regardless_counterexample:
  "calculateBlockHash_BV bv_env0 bv_block_future = Inr ''00c0ffee''
   \<and> bv_hash bv_block_future = JString ''00bad''
   \<and> validateBlock_BV bv_env0 bv_cfg0 bv_block_future None
       = \<lparr> isValid = False, error = Some ''Invalid block timestamp'' \<rparr>"
  by (simp add: validateBlock_BV_def validateBlock_try_def validateBlockStructure_def
      validateBlockSize_def validateTimestamp_def calculateBlockHash_BV_def bv_env0_def
      bv_cfg0_def bv_block_future_def)

lemma stored_hash_differs:
  assumes "calculateBlockHash_BV env block = Inr h" and "0 \<le> bv_difficulty cfg"
    and "bv_hash block \<noteq> JString h"
  shows "validateBlockHash env cfg block = Inr False"
  using assms by (auto simp: validateBlockHash_def js_repeat_def split: jsval.splits)

text \<open>
  C6, amended: \<open>validateBlock\<close> answers with the error of the first check that fails,
  in the order structure, size, timestamp, hash. So for every block that passes the
  structure, size and timestamp checks, whose hash is recomputed without an error
  under a non-negative difficulty, and whose stored hash differs from the recomputed
  hash, the answer is the invalid result with the error \<open>Invalid block hash\<close>,
  whatever the previous-hash linkage and the transactions are; a block that fails the
  structure, the size or the timestamp check gets that check's error instead; and an
  error thrown while the size is measured or the hash is recomputed, or by a negative
  difficulty, is answered \<open>Validation error:\<close> followed by its message.
\<close>

theorem C6_first_failing_check:
  "(\<not> validateBlockStructure block \<longrightarrow>
      validateBlock_BV env cfg block previousBlock
        = \<lparr> isValid = False, error = Some ''Invalid block structure'' \<rparr>)
   \<and> (validateBlockStructure block \<and> validateBlockSize env cfg block = Inr False \<longrightarrow>
      validateBlock_BV env cfg block previousBlock
        = \<lparr> isValid = False, error = Some ''Block exceeds maximum size'' \<rparr>)
   \<and> (validateBlockStructure block \<and> validateBlockSize env cfg block = Inr True
        \<and> \<not> validateTimestamp env block previousBlock \<longrightarrow>
      validateBlock_BV env cfg block previousBlock
        = \<lparr> isValid = False, error = Some ''Invalid block timestamp'' \<rparr>)
   \<and> (validateBlockStructure block \<and> validateBlockSize env cfg block = Inr True
        \<and> validateTimestamp env block previousBlock
        \<and> calculateBlockHash_BV env block = Inr h \<and> 0 \<le> bv_difficulty cfg
        \<and> bv_hash block \<noteq> JString h \<longrightarrow>
      validateBlock_BV env cfg block previousBlock
        = \<lparr> isValid = False, error = Some ''Invalid block hash'' \<rparr>)
   \<and> (validateBlockStructure block \<and> validateBlockSize env cfg block = Inl e \<longrightarrow>
      validateBlock_BV env cfg block previousBlock
        = \<lparr> isValid = False, error = Some (''Validation error: '' @ message e) \<rparr>)
   \<and> (validateBlockStructure block \<and> validateBlockSize env cfg block = Inr True
        \<and> validateTimestamp env block previousBlock
        \<and> validateBlockHash env cfg block = Inl e \<longrightarrow>
      validateBlock_BV env cfg block previousBlock
        = \<lparr> isValid = False, error = Some (''Validation error: '' @ message e) \<rparr>)
   \<and> (calculateBlockHash_BV env block = Inr h \<and> bv_difficulty cfg < 0 \<longrightarrow>
      validateBlockHash env cfg block
        = Inl (JsError RangeError (''Invalid count value: '' @ show_int (bv_difficulty cfg))))"
proof (intro conjI impI)
  assume "\<not> validateBlockStructure block"
  then show "validateBlock_BV env cfg block previousBlock
        = \<lparr> isValid = False, error = Some ''Invalid block structure'' \<rparr>"
    by (simp add: validateBlock_BV_def validateBlock_try_def)
next
  assume "validateBlockStructure block \<and> validateBlockSize env cfg block = Inr False"
  then show "validateBlock_BV env cfg block previousBlock
        = \<lparr> isValid = False, error = Some ''Block exceeds maximum size'' \<rparr>"
    by (simp add: validateBlock_BV_def validateBlock_try_def)
next
  assume "validateBlockStructure block \<and> validateBlockSize env cfg block = Inr True
        \<and> \<not> validateTimestamp env block previousBlock"
  then show "validateBlock_BV env cfg block previousBlock
        = \<lparr> isValid = False, error = Some ''Invalid block timestamp'' \<rparr>"
    by (simp add: validateBlock_BV_def validateBlock_try_def)
next
  assume a: "validateBlockStructure block \<and> validateBlockSize env cfg block = Inr True
        \<and> validateTimestamp env block previousBlock
        \<and> calculateBlockHash_BV env block = Inr h \<and> 0 \<le> bv_difficulty cfg
        \<and> bv_hash block \<noteq> JString h"
  then have "validateBlockHash env cfg block = Inr False"
    by (simp add: stored_hash_differs)
  with a show "validateBlock_BV env cfg block previousBlock
        = \<lparr> isValid = False, error = Some ''Invalid block hash'' \<rparr>"
    by (simp add: validateBlock_BV_def validateBlock_try_def)
next
  assume "validateBlockStructure block \<and> validateBlockSize env cfg block = Inl e"
  then show "validateBlock_BV env cfg block previousBlock
        = \<lparr> isValid = False, error = Some (''Validation error: '' @ message e) \<rparr>"
    by (simp add: validateBlock_BV_def validateBlock_try_def)
next
  assume "validateBlockStructure block \<and> validateBlockSize env cfg block = Inr True
        \<and> validateTimestamp env block previousBlock
        \<and> validateBlockHash env cfg block = Inl e"
  then show "validateBlock_BV env cfg block previousBlock
        = \<lparr> isValid = False, error = Some (''Validation error: '' @ message e) \<rparr>"
    by (simp add: validateBlock_BV_def validateBlock_try_def)
next
  assume "calculateBlockHash_BV env block = Inr h \<and> bv_difficulty cfg < 0"
  then show "validateBlockHash env cfg block
        = Inl (JsError RangeError (''Invalid count value: '' @ show_int (bv_difficulty cfg)))"
    by (simp add: validateBlockHash_def js_repeat_def)
qed

text \<open>
  The witness: a block with a wrong stored hash, a wrong parent and an unsigned
  transaction (hash error); the same block without an index (structure error), under a
  maximum size of 100 (size error), with a timestamp not after its parent's (timestamp
  error), where the serialization throws, and under difficulty -1.
\<close>

theorem C6_first_failing_check_witness:
  "validateBlock_BV bv_env0 bv_cfg0 bv_block_badhash (Some bv_previous0)
       = \<lparr> isValid = False, error = Some ''Invalid block hash'' \<rparr>
   \<and> validateBlock_BV bv_env0 bv_cfg0 (bv_block_badhash \<lparr> bv_index := JOther \<rparr>) (Some bv_previous0)
       = \<lparr> isValid = False, error = Some ''Invalid block structure'' \<rparr>
   \<and> validateBlock_BV bv_env0 (bv_cfg0 \<lparr> bv_maxBlockSize := 100 \<rparr>) bv_block_badhash (Some bv_previous0)
       = \<lparr> isValid = False, error = Some ''Block exceeds maximum size'' \<rparr>
   \<and> validateBlock_BV bv_env0 bv_cfg0 bv_block_badhash (Some (bv_previous0 \<lparr> bvp_timestamp := 900000 \<rparr>))
       = \<lparr> isValid = False, error = Some ''Invalid block timestamp'' \<rparr>
   \<and> validateBlock_BV (bv_env0 \<lparr> bv_jsonLength := (\<lambda>b. Inl ''Do not know how to serialize a BigInt'') \<rparr>)
        bv_cfg0 bv_block_badhash (Some bv_previous0)
       = \<lparr> isValid = False,
           error = Some ''Validation error: Do not know how to serialize a BigInt'' \<rparr>
   \<and> validateBlock_BV bv_env0 (bv_cfg0 \<lparr> bv_difficulty := -1 \<rparr>) bv_block_badhash (Some bv_previous0)
       = \<lparr> isValid = False, error = Some ''Validation error: Invalid count value: -1'' \<rparr>"
proof -
  have struct_ok: "validateBlockStructure bv_block_badhash"
    by (simp add: validateBlockStructure_def bv_block_badhash_def)
  have size_ok: "validateBlockSize bv_env0 cfg bv_block_badhash = Inr (300 \<le> bv_maxBlockSize cfg)" for cfg
    by (simp add: validateBlockSize_def bv_env0_def)
  have time_ok: "validateTimestamp bv_env0 bv_block_badhash (Some bv_previous0)"
    by (simp add: validateTimestamp_def bv_env0_def bv_block_badhash_def bv_previous0_def)
  have hash: "calculateBlockHash_BV bv_env0 bv_block_badhash = Inr ''00c0ffee''"
    by (simp add: calculateBlockHash_BV_def bv_env0_def)
  have stored: "bv_hash bv_block_badhash \<noteq> JString ''00c0ffee''"
    by (simp add: bv_block_badhash_def)
  have 1: "validateBlock_BV bv_env0 bv_cfg0 bv_block_badhash (Some bv_previous0)
       = \<lparr> isValid = False, error = Some ''Invalid block hash'' \<rparr>"
    using C6_first_failing_check [where block = bv_block_badhash and env = bv_env0 and cfg = bv_cfg0
        and previousBlock = "Some bv_previous0" and h = "''00c0ffee''"]
      struct_ok size_ok [of bv_cfg0] time_ok hash stored
    by (simp add: bv_cfg0_def)
  have 2: "validateBlock_BV bv_env0 bv_cfg0 (bv_block_badhash \<lparr> bv_index := JOther \<rparr>) (Some bv_previous0)
       = \<lparr> isValid = False, error = Some ''Invalid block structure'' \<rparr>"
    using C6_first_failing_check [where block = "bv_block_badhash \<lparr> bv_index := JOther \<rparr>"
        and env = bv_env0 and cfg = bv_cfg0 and previousBlock = "Some bv_previous0"]
    by (simp add: validateBlockStructure_def)
  have 3: "validateBlock_BV bv_env0 (bv_cfg0 \<lparr> bv_maxBlockSize := 100 \<rparr>) bv_block_badhash (Some bv_previous0)
       = \<lparr> isValid = False, error = Some ''Block exceeds maximum size'' \<rparr>"
    using C6_first_failing_check [where block = bv_block_badhash and env = bv_env0
        and cfg = "bv_cfg0 \<lparr> bv_maxBlockSize := 100 \<rparr>" and previousBlock = "Some bv_previous0"]
      struct_ok size_ok [of "bv_cfg0 \<lparr> bv_maxBlockSize := 100 \<rparr>"]
    by simp
  have 4: "validateBlock_BV bv_env0 bv_cfg0 bv_block_badhash (Some (bv_previous0 \<lparr> bvp_timestamp := 900000 \<rparr>))
       = \<lparr> isValid = False, error = Some ''Invalid block timestamp'' \<rparr>"
    using C6_first_failing_check [where block = bv_block_badhash and env = bv_env0 and cfg = bv_cfg0
        and previousBlock = "Some (bv_previous0 \<lparr> bvp_timestamp := 900000 \<rparr>)"]
      struct_ok size_ok [of bv_cfg0]
    by (simp add: bv_cfg0_def validateTimestamp_def bv_env0_def bv_block_badhash_def)
  have 5: "validateBlock_BV (bv_env0 \<lparr> bv_jsonLength := (\<lambda>b. Inl ''Do not know how to serialize a BigInt'') \<rparr>)
        bv_cfg0 bv_block_badhash (Some bv_previous0)
       = \<lparr> isValid = False,
           error = Some ''Validation error: Do not know how to serialize a BigInt'' \<rparr>"
    using C6_first_failing_check [where block = bv_block_badhash
        and env = "bv_env0 \<lparr> bv_jsonLength := (\<lambda>b. Inl ''Do not know how to serialize a BigInt'') \<rparr>"
        and cfg = bv_cfg0 and previousBlock = "Some bv_previous0"
        and e = "JsError TypeError ''Do not know how to serialize a BigInt''"] struct_ok
    by (simp add: validateBlockSize_def)
  have neg: "validateBlockHash bv_env0 (bv_cfg0 \<lparr> bv_difficulty := -1 \<rparr>) bv_block_badhash
       = Inl (JsError RangeError ''Invalid count value: -1'')"
    using C6_first_failing_check [where block = bv_block_badhash and env = bv_env0
        and cfg = "bv_cfg0 \<lparr> bv_difficulty := -1 \<rparr>" and h = "''00c0ffee''"] hash
    by (simp add: show_int_def show_nat.simps digit_char_def)
  have 6: "validateBlock_BV bv_env0 (bv_cfg0 \<lparr> bv_difficulty := -1 \<rparr>) bv_block_badhash (Some bv_previous0)
       = \<lparr> isValid = False, error = Some ''Validation error: Invalid count value: -1'' \<rparr>"
    using C6_first_failing_check [where block = bv_block_badhash and env = bv_env0
        and cfg = "bv_cfg0 \<lparr> bv_difficulty := -1 \<rparr>" and previousBlock = "Some bv_previous0"
        and e = "JsError RangeError ''Invalid count value: -1''"]
      struct_ok size_ok [of "bv_cfg0 \<lparr> bv_difficulty := -1 \<rparr>"] time_ok neg
    by (simp add: bv_cfg0_def)
  from 1 2 3 4 5 6 show ?thesis
    by blast
qed

section \<open>Facts about Map\<close>

lemma map_fst_map_set:
  "map fst (map_set m k v) = (if k \<in> set (map fst m) then map fst m else map fst m @ [k])"
  by (induction m) (auto simp: rev_image_eqI)

lemma map_has_map_set: "map_has (map_set m k v) k' = (k' = k \<or> map_has m k')"
  unfolding map_has_def map_fst_map_set by auto

lemma length_map_set: "length (map_set m k v) = (if map_has m k then length m else Suc (length m))"
proof -
  have "length (map_set m k v) = length (map fst (map_set m k v))"
    by simp
  also have "\<dots> = (if map_has m k then length m else Suc (length m))"
    unfolding map_fst_map_set map_has_def by simp
  finally show ?thesis .
qed

lemma map_set_absent: "\<not> map_has m k \<Longrightarrow> map_set m k v = m @ [(k, v)]"
  by (induction m) (auto simp: map_has_def)

section \<open>The size of the first pool\<close>

text \<open>
  C5: after every \<open>add\<close> the pool holds at most its maximum number of entries, because a
  full pool rejects the transaction when the sweep of old entries frees no room. The
  source sweeps and then inserts in any case. Evaluated on a pool of maximum size 1
  that holds one entry admitted at time 7000, with a second, valid transaction at time
  8000: the transaction is admitted and the pool holds two entries.
\<close>

theorem C5_full_pool_admits:
  "getPoolSize (snd (addTransaction_P1 tp_env0 7000 (new_TransactionPool 1) tp_txA)) = 1
   \<and> fst (addTransaction_P1 tp_env0 8000
            (snd (addTransaction_P1 tp_env0 7000 (new_TransactionPool 1) tp_txA)) tp_txB) = True
   \<and> getPoolSize (snd (addTransaction_P1 tp_env0 8000
            (snd (addTransaction_P1 tp_env0 7000 (new_TransactionPool 1) tp_txA)) tp_txB)) = 2
   \<and> tp_maxSize (snd (addTransaction_P1 tp_env0 8000
            (snd (addTransaction_P1 tp_env0 7000 (new_TransactionPool 1) tp_txA)) tp_txB)) = 1"
  by (simp add: addTransaction_P1_def validateTransaction_P1_def getTransactionHash_def
      getPoolSize_def removeOldestTransactions_def poolTx_of_def new_TransactionPool_def
      tp_env0_def tp_txA_def tp_txB_def map_has_def MAX_AGE_MS_def MAX_SIZE_BYTES_def Let_def)

text \<open>
  What does hold of a rejected admission in this pool: every rejection is decided
  before the map is touched, so the entries are as they were.
\<close>

lemma addTransaction_P1_rejected_unchanged:
  "addTransaction_P1 env now pool tx = (False, pool') \<Longrightarrow>
   tp_transactions pool' = tp_transactions pool \<and> tp_maxSize pool' = tp_maxSize pool"
  by (auto simp: addTransaction_P1_def Let_def split: if_splits sum.splits)

section \<open>Identity of a transaction in the first pool\<close>

lemma addTransaction_P1_admitted_has:
  assumes "addTransaction_P1 env now pool tx = (True, pool')"
  shows "map_has (tp_transactions pool') (getTransactionHash env tx)"
  using assms
  by (auto simp: addTransaction_P1_def Let_def map_has_map_set split: if_splits sum.splits)

text \<open>
  C10: the key of a pool entry is the hash of fromAddress, toAddress, amount and
  timestamp only. Once a transaction has been admitted, \<open>addTransaction\<close> on any
  transaction with the same four fields (whatever its id, fee and signature, and
  whatever the time of the call) returns \<open>false\<close> and leaves the pool as it is.
\<close>

theorem C10_same_four_fields_rejected:
  assumes "addTransaction_P1 env now pool tx1 = (True, pool1)"
    and "tp_fromAddress tx2 = tp_fromAddress tx1"
    and "tp_toAddress tx2 = tp_toAddress tx1"
    and "tp_amount tx2 = tp_amount tx1"
    and "tp_timestamp tx2 = tp_timestamp tx1"
  shows "addTransaction_P1 env now' pool1 tx2 = (False, pool1)"
proof -
  have "getTransactionHash env tx2 = getTransactionHash env tx1"
    using assms(2-5) by (simp add: getTransactionHash_def)
  moreover have "map_has (tp_transactions pool1) (getTransactionHash env tx1)"
    using assms(1) by (rule addTransaction_P1_admitted_has)
  ultimately show ?thesis
    by (simp add: addTransaction_P1_def Let_def)
qed

theorem C10_same_four_fields_rejected_witness:
  "tp_txA' \<noteq> tp_txA
   \<and> tp_id tp_txA' \<noteq> tp_id tp_txA \<and> tp_fee tp_txA' \<noteq> tp_fee tp_txA
   \<and> tp_signature tp_txA' \<noteq> tp_signature tp_txA
   \<and> fst (addTransaction_P1 tp_env0 7000 (new_TransactionPool 5) tp_txA) = True
   \<and> addTransaction_P1 tp_env0 9000
        (snd (addTransaction_P1 tp_env0 7000 (new_TransactionPool 5) tp_txA)) tp_txA'
       = (False, snd (addTransaction_P1 tp_env0 7000 (new_TransactionPool 5) tp_txA))"
proof -
  have adm: "addTransaction_P1 tp_env0 7000 (new_TransactionPool 5) tp_txA
        = (True, snd (addTransaction_P1 tp_env0 7000 (new_TransactionPool 5) tp_txA))"
    by (simp add: addTransaction_P1_def validateTransaction_P1_def getTransactionHash_def
        getPoolSize_def new_TransactionPool_def tp_env0_def tp_txA_def map_has_def
        MAX_SIZE_BYTES_def Let_def)
  have same: "tp_fromAddress tp_txA' = tp_fromAddress tp_txA"
    "tp_toAddress tp_txA' = tp_toAddress tp_txA"
    "tp_amount tp_txA' = tp_amount tp_txA"
    "tp_timestamp tp_txA' = tp_timestamp tp_txA"
    by (simp_all add: tp_txA_def tp_txA'_def)
  have differ: "tp_txA' \<noteq> tp_txA" "tp_id tp_txA' \<noteq> tp_id tp_txA"
    "tp_fee tp_txA' \<noteq> tp_fee tp_txA" "tp_signature tp_txA' \<noteq> tp_signature tp_txA"
    by (simp_all add: tp_txA_def tp_txA'_def)
  have "fst (addTransaction_P1 tp_env0 7000 (new_TransactionPool 5) tp_txA) = True"
    using adm by (metis fst_conv)
  with differ C10_same_four_fields_rejected [OF adm same, of 9000] show ?thesis
    by simp
qed

section \<open>The balance check of the second pool\<close>

lemma validateTransactionBalance_throws:
  "validateTransactionBalance env pool tx
     = Inl (JsError Error ''Transaction validation failed: Not implemented'')"
  by (simp add: validateTransactionBalance_def getSenderBalance_def)


text \<open>The scenario: the new transaction (40, 5) meets the pending entry (60, 5).\<close>

lemma addTransaction_P2_scenario:
  "addTransaction_P2 tp2_env0 [(''h60'', tp2_pending60)] tp2_new40
     = Inl (JsError Error ''Failed to add transaction: Transaction validation failed: Not implemented'')"
  by (simp add: addTransaction_P2_def validateTransactionBalance_throws Let_def failed_to_add_def
      tp2_env0_def tp2_new40_def map_has_def maxPoolSize_def)

text \<open>
  The pending entry of the scenario cannot come from this pool: the first transaction
  (60, 5), submitted to the empty pool, is rejected in the same way.
\<close>

lemma addTransaction_P2_first:
  "addTransaction_P2 tp2_env0 [] tp2_pending60
     = Inl (JsError Error ''Failed to add transaction: Transaction validation failed: Not implemented'')"
  by (simp add: addTransaction_P2_def validateTransactionBalance_throws Let_def failed_to_add_def
      tp2_env0_def map_has_def maxPoolSize_def)

section \<open>The odd level of merkleHash\<close>

lemma drop_step2: "i + 1 < length xs \<Longrightarrow> drop i xs = xs ! i # xs ! (i + 1) # drop (i + 2) xs"
  by (metis Cons_nth_drop_Suc Suc_eq_plus1 add_2_eq_Suc' add_lessD1)

lemma drop_last1: "i + 1 = length xs \<Longrightarrow> drop i xs = [xs ! i]"
  by (metis Cons_nth_drop_Suc Suc_eq_plus1 drop_all lessI order_refl)

lemma levelLoop_B_pairUp:
  "levelLoop_B H level i nextLevel = nextLevel @ spec_pairUp H (drop i level)"
proof (induction H level i nextLevel rule: levelLoop_B.induct)
  case (1 H level i nextLevel)
  show ?case
  proof (cases "i < length level")
    case False
    then show ?thesis by (simp add: levelLoop_B.simps)
  next
    case inside: True
    show ?thesis
    proof (cases "i + 1 = length level")
      case True
      have "levelLoop_B H level i nextLevel
              = levelLoop_B H level (i + 2) (nextLevel @ [level ! i])"
        using inside True by (subst levelLoop_B.simps) simp
      then show ?thesis
        using "1.IH"(1) [OF inside True] True by (simp add: drop_last1)
    next
      case False
      have "levelLoop_B H level i nextLevel
              = levelLoop_B H level (i + 2) (nextLevel @ [H (level ! i @ level ! (i + 1))])"
        using inside False by (subst levelLoop_B.simps) (simp add: Let_def)
      moreover have "drop i level = level ! i # level ! (i + 1) # drop (i + 2) level"
        using inside False by (intro drop_step2) arith
      ultimately show ?thesis
        using "1.IH"(2) [OF inside False refl refl] by simp
    qed
  qed
qed

lemma levelLoop_A_pairUp:
  "levelLoop_A H hashes i temp = temp @ dup_pairUp H (drop i hashes)"
proof (induction H hashes i temp rule: levelLoop_A.induct)
  case (1 H hashes i temp)
  show ?case
  proof (cases "i < length hashes")
    case False
    then show ?thesis by (simp add: levelLoop_A.simps)
  next
    case inside: True
    show ?thesis
    proof (cases "i + 1 = length hashes")
      case True
      have "levelLoop_A H hashes i temp
              = levelLoop_A H hashes (i + 2) (temp @ [H (hashes ! i @ hashes ! i)])"
        using inside True by (subst levelLoop_A.simps) simp
      then show ?thesis
        using "1.IH"(1) [OF inside True] True by (simp add: drop_last1)
    next
      case False
      have "levelLoop_A H hashes i temp
              = levelLoop_A H hashes (i + 2) (temp @ [H (hashes ! i @ hashes ! (i + 1))])"
        using inside False by (subst levelLoop_A.simps) simp
      moreover have "drop i hashes = hashes ! i # hashes ! (i + 1) # drop (i + 2) hashes"
        using inside False by (intro drop_step2) arith
      ultimately show ?thesis
        using "1.IH"(2) [OF inside False] by simp
    qed
  qed
qed

lemma whileLoop_B_reduce: "whileLoop_B H level = spec_reduce H level"
proof (induction H level rule: whileLoop_B.induct)
  case (1 H level)
  show ?case
  proof (cases "length level > 1")
    case True
    then show ?thesis
      using "1.IH" by (subst whileLoop_B.simps, subst spec_reduce.simps) (simp add: levelLoop_B_pairUp)
  next
    case False
    then show ?thesis
      by (subst whileLoop_B.simps, subst spec_reduce.simps) simp
  qed
qed

lemma whileLoop_A_reduce: "whileLoop_A H level = dup_reduce H level"
proof (induction H level rule: whileLoop_A.induct)
  case (1 H level)
  show ?case
  proof (cases "length level > 1")
    case True
    then show ?thesis
      using "1.IH" by (subst whileLoop_A.simps, subst dup_reduce.simps) (simp add: levelLoop_A_pairUp)
  next
    case False
    then show ?thesis
      by (subst whileLoop_A.simps, subst dup_reduce.simps) simp
  qed
qed

text \<open>The loop ends with exactly one hash, which is the one returned.\<close>

lemma length_spec_reduce: "level \<noteq> [] \<Longrightarrow> length (spec_reduce H level) = 1"
proof (induction H level rule: spec_reduce.induct)
  case (1 H level)
  show ?case
  proof (cases "length level \<le> 1")
    case True
    with "1.prems" show ?thesis
      by (subst spec_reduce.simps) (cases level; simp)
  next
    case False
    then have "length (spec_pairUp H level) > 0"
      by (simp add: length_spec_pairUp)
    then have "spec_pairUp H level \<noteq> []"
      by simp
    with False "1.IH" show ?thesis
      by (subst spec_reduce.simps) simp
  qed
qed

lemma spec_pairUp_last: "odd (length xs) \<Longrightarrow> last (spec_pairUp H xs) = last xs"
proof (induction H xs rule: spec_pairUp.induct)
  case (1 H a b rest)
  then have "rest \<noteq> []" by auto
  then have "length (spec_pairUp H rest) > 0"
    by (simp add: length_spec_pairUp)
  then have "spec_pairUp H rest \<noteq> []"
    by simp
  with 1 \<open>rest \<noteq> []\<close> show ?case by simp
qed simp_all

lemma dup_pairUp_last: "odd (length xs) \<Longrightarrow> last (dup_pairUp H xs) = H (last xs @ last xs)"
proof (induction H xs rule: dup_pairUp.induct)
  case (1 H a b rest)
  then have "rest \<noteq> []" by auto
  then have "length (dup_pairUp H rest) > 0"
    by (simp add: length_dup_pairUp)
  then have "dup_pairUp H rest \<noteq> []"
    by simp
  with 1 \<open>rest \<noteq> []\<close> show ?case by simp
qed simp_all

text \<open>
  C7, as stated: \<open>merkleHash\<close> carries the unpaired trailing hash of an odd level
  forward unchanged. The first \<open>CryptographicHash\<close> of the file does not: on three
  items its last level-one hash is hashed with itself, and its root differs from the
  root that the specification describes.
\<close>

theorem C7_first_merkleHash_rehashes_counterexample:
  "merkleHash_A H0 [''a'', ''b'', ''c''] = Inr ''<<<a><b>><<c><c>>>''
   \<and> spec_merkleRoot H0 [''a'', ''b'', ''c''] = ''<<<a><b>><c>>''
   \<and> levelLoop_A H0 [''<a>'', ''<b>'', ''<c>''] 0 [] = [''<<a><b>>'', ''<<c><c>>'']"
  by (simp add: merkleHash_A_def spec_merkleRoot_def whileLoop_A.simps levelLoop_A.simps
      spec_reduce.simps H0_def)

text \<open>
  C7, amended: for every non-empty input, the second \<open>merkleHash\<close> of the file returns
  the root obtained by hashing pairwise bottom-up with an unpaired trailing hash
  carried forward unchanged, and the first \<open>merkleHash\<close> returns the root obtained
  with the unpaired trailing hash hashed against itself. At every level with an odd
  number of hashes, the last hash of the next level is the last hash itself in the
  second method, and the hash of its self-concatenation in the first.
\<close>

theorem C7_merkleHash_odd_policies:
  assumes "items \<noteq> []"
  shows "merkleHash_B H items = Inr (spec_merkleRoot H items)
     \<and> merkleHash_A H items = Inr (dup_merkleRoot H items)
     \<and> (\<forall>level. odd (length level) \<longrightarrow>
            last (levelLoop_B H level 0 []) = last level
          \<and> last (levelLoop_A H level 0 []) = H (last level @ last level))"
proof -
  have "merkleHash_B H items = Inr (spec_merkleRoot H items)"
    using assms by (simp add: merkleHash_B_def spec_merkleRoot_def whileLoop_B_reduce)
  moreover have "merkleHash_A H items = Inr (dup_merkleRoot H items)"
    using assms by (simp add: merkleHash_A_def dup_merkleRoot_def whileLoop_A_reduce)
  moreover have "last (levelLoop_B H level 0 []) = last level" if "odd (length level)" for level
    using that by (simp add: levelLoop_B_pairUp spec_pairUp_last)
  moreover have "last (levelLoop_A H level 0 []) = H (last level @ last level)"
    if "odd (length level)" for level
    using that by (simp add: levelLoop_A_pairUp dup_pairUp_last)
  ultimately show ?thesis
    by blast
qed

theorem C7_merkleHash_odd_policies_witness:
  "[''a'', ''b'', ''c''] \<noteq> ([] :: string list)
   \<and> merkleHash_B H0 [''a'', ''b'', ''c''] = Inr ''<<<a><b>><c>>''
   \<and> odd (length [''<a>'', ''<b>'', ''<c>''])
   \<and> last (levelLoop_B H0 [''<a>'', ''<b>'', ''<c>''] 0 []) = ''<c>''
   \<and> last (levelLoop_A H0 [''<a>'', ''<b>'', ''<c>''] 0 []) = ''<<c><c>>''"
proof -
  have ne: "[''a'', ''b'', ''c''] \<noteq> ([] :: string list)"
    by simp
  have root: "spec_merkleRoot H0 [''a'', ''b'', ''c''] = ''<<<a><b>><c>>''"
    by (simp add: spec_merkleRoot_def spec_reduce.simps H0_def)
  have odd3: "odd (length [''<a>'', ''<b>'', ''<c>''])"
    by simp
  from C7_merkleHash_odd_policies [OF ne, of H0]
  have "merkleHash_B H0 [''a'', ''b'', ''c''] = Inr (spec_merkleRoot H0 [''a'', ''b'', ''c''])"
    and "last (levelLoop_B H0 [''<a>'', ''<b>'', ''<c>''] 0 []) = last [''<a>'', ''<b>'', ''<c>'']"
    and "last (levelLoop_A H0 [''<a>'', ''<b>'', ''<c>''] 0 [])
           = H0 (last [''<a>'', ''<b>'', ''<c>''] @ last [''<a>'', ''<b>'', ''<c>''])"
    using odd3 by blast+
  with ne root odd3 show ?thesis
    by (simp add: H0_def)
qed

section \<open>Quorum and finalization in the consensus engine\<close>

lemma map_get_map_delete:
  "map_get (map_delete m k) k' = (if k' = k then None else map_get m k')"
  by (induction m) (auto simp: map_get_def map_delete_def)

lemma map_get_map_set:
  "map_get (map_set m k v) k' = (if k' = k then Some v else map_get m k')"
  by (induction m) (auto simp: map_get_def)

lemma map_has_map_get: "map_has m k \<longleftrightarrow> map_get m k \<noteq> None"
  by (simp add: map_has_def map_get_def map_of_eq_None_iff)

lemma map_has_map_delete: "map_has (map_delete m k) k' \<longleftrightarrow> k' \<noteq> k \<and> map_has m k'"
  by (simp add: map_has_map_get map_get_map_delete)

lemma distinct_map_set: "distinct (map fst m) \<Longrightarrow> distinct (map fst (map_set m k v))"
  by (simp add: map_fst_map_set)

lemma distinct_map_delete: "distinct (map fst m) \<Longrightarrow> distinct (map fst (map_delete m k))"
  by (simp add: map_delete_def distinct_map_filter)

lemma set_add_subset: "set s \<subseteq> V \<Longrightarrow> x \<in> V \<Longrightarrow> set (set_add s x) \<subseteq> V"
  by (simp add: set_add_def)

text \<open>
  What every reachable state satisfies: the two maps have distinct keys and the same
  keys, a pending block is stored under its own hash, and every attestation set holds
  validators only.
\<close>

definition ce_inv :: "ce_env \<Rightarrow> ce_state \<Rightarrow> bool" where
  "ce_inv env s \<longleftrightarrow>
     distinct (map fst (ce_validations s))
     \<and> (\<forall>h. map_has (ce_pendingBlocks s) h = map_has (ce_validations s) h)
     \<and> (\<forall>h b. map_get (ce_pendingBlocks s) h = Some b \<longrightarrow> h = calculateBlockHash_CE env b)
     \<and> (\<forall>h v. map_get (ce_validations s) h = Some v \<longrightarrow> set v \<subseteq> set (ce_validators s))"

lemma ce_inv_proposeBlock:
  assumes "ce_inv env s" and "proposeBlock env s block = (r, s')"
  shows "ce_inv env s'"
proof (cases "s' = s")
  case True
  with assms(1) show ?thesis by simp
next
  case False
  with assms(2) have s': "s' = s \<lparr> ce_pendingBlocks :=
        map_set (ce_pendingBlocks s) (calculateBlockHash_CE env block) block,
      ce_validations := map_set (ce_validations s) (calculateBlockHash_CE env block) (new_Set []) \<rparr>"
    by (auto simp: proposeBlock_def Let_def split: if_splits sum.splits)
  show ?thesis
    using assms(1) unfolding s' ce_inv_def
    by (auto simp: map_has_map_set map_get_map_set distinct_map_set new_Set_def split: if_splits)
qed

lemma ce_inv_validateBlock:
  assumes "ce_inv env s" and "validateBlock_CE env s h k sig = (r, s')"
  shows "ce_inv env s'"
proof (cases "s' = s")
  case True
  with assms(1) show ?thesis by simp
next
  case False
  with assms(2) obtain v where k: "k \<in> set (ce_validators s)"
    and v: "map_get (ce_validations s) h = Some v"
    and s': "s' = s \<lparr> ce_validations := map_set (ce_validations s) h (set_add v k) \<rparr>"
    by (auto simp: validateBlock_CE_def Let_def set_has_def split: if_splits sum.splits option.splits)
  from v have has: "map_has (ce_validations s) h"
    by (simp add: map_has_map_get)
  show ?thesis
    using assms(1) k v has unfolding s' ce_inv_def
    by (auto simp: map_has_map_set map_get_map_set distinct_map_set set_add_def split: if_splits)
qed

lemma finalizeLoop_frame:
  "finalizeLoop es s acc = (bs, s') \<Longrightarrow>
   ce_validators s' = ce_validators s \<and> ce_requiredValidations s' = ce_requiredValidations s"
  by (induction es s acc rule: finalizeLoop.induct) (auto split: if_splits option.splits)

text \<open>The hashes that the loop over the entries \<open>es\<close> finalizes from the state \<open>s\<close>.\<close>

definition finalizable :: "(string \<times> string jsset) list \<Rightarrow> ce_state \<Rightarrow> string \<Rightarrow> bool" where
  "finalizable es s h \<longleftrightarrow>
     (\<exists>v. (h, v) \<in> set es \<and> int (set_size v) \<ge> ce_requiredValidations s)
     \<and> map_has (ce_pendingBlocks s) h"

lemma finalizeLoop_maps:
  assumes "distinct (map fst es)"
  shows "map_get (ce_pendingBlocks (snd (finalizeLoop es s acc))) h
           = (if finalizable es s h then None else map_get (ce_pendingBlocks s) h)
       \<and> map_get (ce_validations (snd (finalizeLoop es s acc))) h
           = (if finalizable es s h then None else map_get (ce_validations s) h)"
  using assms
proof (induction es s acc rule: finalizeLoop.induct)
  case (1 s acc)
  then show ?case by (simp add: finalizable_def)
next
  case (2 hash validations rest s acc)
  from "2.prems" have fresh: "\<And>v. (hash, v) \<notin> set rest" and d: "distinct (map fst rest)"
    by (auto simp: rev_image_eqI)
  show ?case
  proof (cases "int (set_size validations) \<ge> ce_requiredValidations s")
    case False
    then have "finalizable ((hash, validations) # rest) s h = finalizable rest s h"
      using fresh by (auto simp: finalizable_def)
    with False "2.IH"(3) [OF False d] show ?thesis by simp
  next
    case quorum: True
    show ?thesis
    proof (cases "map_get (ce_pendingBlocks s) hash")
      case None
      then have "finalizable ((hash, validations) # rest) s h = finalizable rest s h"
        using fresh by (auto simp: finalizable_def map_has_map_get)
      with quorum None "2.IH"(1) [OF quorum None d] show ?thesis by simp
    next
      case (Some block)
      let ?s1 = "s \<lparr> ce_pendingBlocks := map_delete (ce_pendingBlocks s) hash,
                     ce_validations := map_delete (ce_validations s) hash \<rparr>"
      have fin: "finalizable ((hash, validations) # rest) s h
                   = (h = hash \<or> finalizable rest ?s1 h)"
        using fresh quorum Some
        by (auto simp: finalizable_def map_has_map_get map_get_map_delete)
      from quorum Some "2.IH"(2) [OF quorum Some d] fin show ?thesis
        by (auto simp: map_get_map_delete)
    qed
  qed
qed

lemma finalizeLoop_blocks:
  assumes "distinct (map fst es)"
  shows "set (fst (finalizeLoop es s acc))
           = set acc \<union> {b. \<exists>h. finalizable es s h \<and> map_get (ce_pendingBlocks s) h = Some b}"
  using assms
proof (induction es s acc rule: finalizeLoop.induct)
  case (1 s acc)
  then show ?case by (simp add: finalizable_def)
next
  case (2 hash validations rest s acc)
  from "2.prems" have fresh: "\<And>v. (hash, v) \<notin> set rest" and d: "distinct (map fst rest)"
    by (auto simp: rev_image_eqI)
  show ?case
  proof (cases "int (set_size validations) \<ge> ce_requiredValidations s")
    case False
    then have "\<And>h. finalizable ((hash, validations) # rest) s h = finalizable rest s h"
      using fresh by (auto simp: finalizable_def)
    with False "2.IH"(3) [OF False d] show ?thesis by simp
  next
    case quorum: True
    show ?thesis
    proof (cases "map_get (ce_pendingBlocks s) hash")
      case None
      then have "\<And>h. finalizable ((hash, validations) # rest) s h = finalizable rest s h"
        using fresh by (auto simp: finalizable_def map_has_map_get)
      with quorum None "2.IH"(1) [OF quorum None d] show ?thesis by simp
    next
      case (Some block)
      let ?s1 = "s \<lparr> ce_pendingBlocks := map_delete (ce_pendingBlocks s) hash,
                     ce_validations := map_delete (ce_validations s) hash \<rparr>"
      have fin: "\<And>h. finalizable ((hash, validations) # rest) s h
                   = (h = hash \<or> finalizable rest ?s1 h)"
        using fresh quorum Some
        by (auto simp: finalizable_def map_has_map_get map_get_map_delete)
      have rest_pending: "\<And>h. finalizable rest ?s1 h \<Longrightarrow>
          map_get (ce_pendingBlocks ?s1) h = map_get (ce_pendingBlocks s) h"
        by (auto simp: finalizable_def map_has_map_get map_get_map_delete)
      have "set (fst (finalizeLoop ((hash, validations) # rest) s acc))
              = set (acc @ [block])
                \<union> {b. \<exists>h. finalizable rest ?s1 h \<and> map_get (ce_pendingBlocks ?s1) h = Some b}"
        using quorum Some "2.IH"(2) [OF quorum Some d] by simp
      also have "\<dots> = set acc
                \<union> {b. \<exists>h. finalizable ((hash, validations) # rest) s h
                           \<and> map_get (ce_pendingBlocks s) h = Some b}"
        using Some rest_pending unfolding fin by auto
      finally show ?thesis .
    qed
  qed
qed

lemma finalizeLoop_distinct:
  "distinct (map fst (ce_validations s)) \<Longrightarrow>
   distinct (map fst (ce_validations (snd (finalizeLoop es s acc))))"
  by (induction es s acc rule: finalizeLoop.induct)
     (auto simp: distinct_map_delete split: option.splits)

lemma ce_inv_getFinalizedBlocks:
  assumes "ce_inv env s" and "getFinalizedBlocks s = (bs, s')"
  shows "ce_inv env s'"
proof -
  have d: "distinct (map fst (ce_validations s))"
    using assms(1) by (simp add: ce_inv_def)
  have s': "s' = snd (finalizeLoop (ce_validations s) s [])"
    using assms(2) by (simp add: getFinalizedBlocks_def)
  have frame: "ce_validators s' = ce_validators s"
    using finalizeLoop_frame [of "ce_validations s" s "[]" bs s'] assms(2)
    by (simp add: getFinalizedBlocks_def)
  have maps: "\<And>h. map_get (ce_pendingBlocks s') h
           = (if finalizable (ce_validations s) s h then None else map_get (ce_pendingBlocks s) h)"
     "\<And>h. map_get (ce_validations s') h
           = (if finalizable (ce_validations s) s h then None else map_get (ce_validations s) h)"
    unfolding s' using finalizeLoop_maps [OF d] by blast+
  have dist: "distinct (map fst (ce_validations s'))"
    unfolding s' using d by (rule finalizeLoop_distinct)
  show ?thesis
    using assms(1) dist unfolding ce_inv_def map_has_map_get maps frame
    by (auto split: if_splits)
qed

lemma ce_inv_constructed:
  assumes "new_ConsensusEngine validators requiredValidations = Inr s"
  shows "ce_inv env s"
proof -
  have "ce_pendingBlocks s = [] \<and> ce_validations s = []"
    using assms by (auto simp: new_ConsensusEngine_def split: if_splits)
  then show ?thesis
    by (simp add: ce_inv_def map_has_def map_get_def)
qed

lemma reachable_ce_inv: "reachable env s \<Longrightarrow> ce_inv env s"
proof (induction rule: reachable.induct)
  case (constructed validators requiredValidations s)
  then show ?case by (rule ce_inv_constructed)
next
  case (proposed s block r s')
  then show ?case by (blast intro: ce_inv_proposeBlock)
next
  case (validated s blockHash validatorKey signature r s')
  then show ?case by (blast intro: ce_inv_validateBlock)
next
  case (finalized s blocks s')
  then show ?case by (blast intro: ce_inv_getFinalizedBlocks)
next
  case (cleared s)
  then show ?case
    by (simp add: ce_inv_def clearPendingBlocks_def map_has_def map_get_def)
qed

lemma finalizable_iff_quorum:
  assumes "ce_inv env s" and "map_get (ce_pendingBlocks s) h = Some b"
  shows "finalizable (ce_validations s) s h
           \<longleftrightarrow> int (attestations s h) \<ge> ce_requiredValidations s"
proof -
  have d: "distinct (map fst (ce_validations s))"
    using assms(1) by (simp add: ce_inv_def)
  have "map_has (ce_pendingBlocks s) h"
    using assms(2) by (simp add: map_has_map_get)
  then have "map_get (ce_validations s) h \<noteq> None"
    using assms(1) by (simp add: ce_inv_def map_has_map_get)
  then obtain v where v: "map_get (ce_validations s) h = Some v"
    by auto
  have "(h, v') \<in> set (ce_validations s) \<longleftrightarrow> v' = v" for v'
  proof -
    have "(h, v') \<in> set (ce_validations s) \<longleftrightarrow> map_of (ce_validations s) h = Some v'"
      using d by simp
    with v show ?thesis
      by (auto simp: map_get_def)
  qed
  then show ?thesis
    using v \<open>map_has (ce_pendingBlocks s) h\<close>
    by (simp add: finalizable_def attestations_def)
qed

lemma validateBlock_CE_unknown_validator:
  "\<not> set_has (ce_validators s) k \<Longrightarrow> validateBlock_CE env s h k sig = (False, s)"
  by (simp add: validateBlock_CE_def)

text \<open>
  C4: in every reachable state of the engine, \<open>getFinalizedBlocks\<close> reports a pending
  block, and removes it from the pending set, if and only if the size of its
  attestation set is at least the quorum threshold; it reports pending blocks only;
  every attestation set holds keys of the configured validator set only, and
  \<open>validateBlock\<close> with a key outside that set answers \<open>false\<close> and changes nothing.
\<close>

theorem C4_finalized_iff_quorum:
  assumes "reachable env s"
  shows "(\<forall>h b. map_get (ce_pendingBlocks s) h = Some b \<longrightarrow>
            (b \<in> set (fst (getFinalizedBlocks s))
               \<longleftrightarrow> int (attestations s h) \<ge> ce_requiredValidations s)
          \<and> (\<not> map_has (ce_pendingBlocks (snd (getFinalizedBlocks s))) h
               \<longleftrightarrow> int (attestations s h) \<ge> ce_requiredValidations s))
     \<and> (\<forall>b \<in> set (fst (getFinalizedBlocks s)). \<exists>h. map_get (ce_pendingBlocks s) h = Some b)
     \<and> (\<forall>h v. map_get (ce_validations s) h = Some v \<longrightarrow> set v \<subseteq> set (ce_validators s))
     \<and> (\<forall>h k sig. \<not> set_has (ce_validators s) k \<longrightarrow> validateBlock_CE env s h k sig = (False, s))"
proof -
  have inv: "ce_inv env s"
    using assms by (rule reachable_ce_inv)
  then have d: "distinct (map fst (ce_validations s))"
    by (simp add: ce_inv_def)
  have own_hash: "\<And>h b. map_get (ce_pendingBlocks s) h = Some b \<Longrightarrow> h = calculateBlockHash_CE env b"
    using inv by (simp add: ce_inv_def)
  have blocks: "set (fst (getFinalizedBlocks s))
      = {b. \<exists>h. finalizable (ce_validations s) s h \<and> map_get (ce_pendingBlocks s) h = Some b}"
    using finalizeLoop_blocks [OF d, of s "[]"] by (simp add: getFinalizedBlocks_def)
  have pending: "\<And>h. map_get (ce_pendingBlocks (snd (getFinalizedBlocks s))) h
      = (if finalizable (ce_validations s) s h then None else map_get (ce_pendingBlocks s) h)"
    using finalizeLoop_maps [OF d, of s "[]"] by (simp add: getFinalizedBlocks_def)
  have reported: "b \<in> set (fst (getFinalizedBlocks s))
        \<longleftrightarrow> int (attestations s h) \<ge> ce_requiredValidations s"
    if hb: "map_get (ce_pendingBlocks s) h = Some b" for h b
  proof -
    have "b \<in> set (fst (getFinalizedBlocks s)) \<longleftrightarrow> finalizable (ce_validations s) s h"
    proof
      assume "b \<in> set (fst (getFinalizedBlocks s))"
      then obtain h' where h': "finalizable (ce_validations s) s h'"
          "map_get (ce_pendingBlocks s) h' = Some b"
        unfolding blocks by blast
      from own_hash [OF h'(2)] own_hash [OF hb] have "h' = h" by simp
      with h'(1) show "finalizable (ce_validations s) s h" by simp
    next
      assume "finalizable (ce_validations s) s h"
      with hb show "b \<in> set (fst (getFinalizedBlocks s))"
        unfolding blocks by blast
    qed
    then show ?thesis
      using finalizable_iff_quorum [OF inv hb] by simp
  qed
  have removed: "\<not> map_has (ce_pendingBlocks (snd (getFinalizedBlocks s))) h
        \<longleftrightarrow> int (attestations s h) \<ge> ce_requiredValidations s"
    if hb: "map_get (ce_pendingBlocks s) h = Some b" for h b
    using finalizable_iff_quorum [OF inv hb] hb by (simp add: map_has_map_get pending)
  have only_pending: "\<exists>h. map_get (ce_pendingBlocks s) h = Some b"
    if "b \<in> set (fst (getFinalizedBlocks s))" for b
    using that unfolding blocks by blast
  have validators_only: "set v \<subseteq> set (ce_validators s)"
    if "map_get (ce_validations s) h = Some v" for h v
    using inv that unfolding ce_inv_def by blast
  show ?thesis
    using reported removed only_pending validators_only validateBlock_CE_unknown_validator
    by blast
qed

lemma ce_state_values:
  "ce_state1 = ce_state0 \<lparr> ce_pendingBlocks := [(''hash-of-genesis'', ce_blockX)],
                            ce_validations := [(''hash-of-genesis'', [])] \<rparr>"
  "ce_state2 = ce_state0 \<lparr> ce_pendingBlocks := [(''hash-of-genesis'', ce_blockX)],
                            ce_validations := [(''hash-of-genesis'', [''A''])] \<rparr>"
  "ce_state3 = ce_state0 \<lparr> ce_pendingBlocks := [(''hash-of-genesis'', ce_blockX)],
                            ce_validations := [(''hash-of-genesis'', [''A'', ''B''])] \<rparr>"
  by (simp_all add: ce_state1_def ce_state2_def ce_state3_def proposeBlock_def
      validateBlock_CE_def calculateBlockHash_CE_def ce_env0_def ce_state0_def ce_blockX_def
      map_has_def map_get_def set_has_def set_add_def set_size_def new_Set_def Let_def)

lemma reachable_scenario:
  "reachable ce_env0 ce_state2" "reachable ce_env0 ce_state3"
proof -
  have "new_ConsensusEngine [''A'', ''B'', ''C''] 2 = Inr ce_state0"
    by (simp add: new_ConsensusEngine_def new_Set_def set_add_def ce_state0_def)
  then have r0: "reachable ce_env0 ce_state0"
    by (rule reachable.constructed)
  have r1: "reachable ce_env0 ce_state1"
    unfolding ce_state1_def by (rule reachable.proposed [OF r0]) (rule surjective_pairing)
  show r2: "reachable ce_env0 ce_state2"
    unfolding ce_state2_def by (rule reachable.validated [OF r1]) (rule surjective_pairing)
  show "reachable ce_env0 ce_state3"
    unfolding ce_state3_def by (rule reachable.validated [OF r2]) (rule surjective_pairing)
qed

theorem C4_finalized_iff_quorum_witness:
  "reachable ce_env0 ce_state3
   \<and> map_get (ce_pendingBlocks ce_state3) ''hash-of-genesis'' = Some ce_blockX
   \<and> int (attestations ce_state3 ''hash-of-genesis'') \<ge> ce_requiredValidations ce_state3
   \<and> ce_blockX \<in> set (fst (getFinalizedBlocks ce_state3))
   \<and> \<not> map_has (ce_pendingBlocks (snd (getFinalizedBlocks ce_state3))) ''hash-of-genesis''
   \<and> \<not> set_has (ce_validators ce_state3) ''Mallory''
   \<and> validateBlock_CE ce_env0 ce_state3 ''hash-of-genesis'' ''Mallory'' ''sigM'' = (False, ce_state3)"
proof -
  have pend: "map_get (ce_pendingBlocks ce_state3) ''hash-of-genesis'' = Some ce_blockX"
    by (simp add: ce_state_values map_get_def)
  have quorum: "int (attestations ce_state3 ''hash-of-genesis'') \<ge> ce_requiredValidations ce_state3"
    by (simp add: ce_state_values attestations_def map_get_def set_size_def ce_state0_def)
  have outsider: "\<not> set_has (ce_validators ce_state3) ''Mallory''"
    by (simp add: ce_state_values set_has_def ce_state0_def)
  from C4_finalized_iff_quorum [OF reachable_scenario(2)] pend quorum outsider
  have "ce_blockX \<in> set (fst (getFinalizedBlocks ce_state3))"
    and "\<not> map_has (ce_pendingBlocks (snd (getFinalizedBlocks ce_state3))) ''hash-of-genesis''"
    and "validateBlock_CE ce_env0 ce_state3 ''hash-of-genesis'' ''Mallory'' ''sigM'' = (False, ce_state3)"
    by blast+
  with reachable_scenario(2) pend quorum outsider show ?thesis
    by simp
qed

section \<open>Facts about the cache\<close>

lemma map_of_filter_key:
  "map_of (filter (\<lambda>p. fst p \<noteq> k) xs) k' = (if k' = k then None else map_of xs k')"
  by (induction xs) auto

lemma lru_get_fst: "fst (lru_get c k) = map_of (lru_items c) k"
  by (simp add: lru_get_def split: option.splits)

lemma lru_get_map_of: "map_of (lru_items (snd (lru_get c k))) = map_of (lru_items c)"
  by (auto simp: lru_get_def map_of_filter_key fun_eq_iff split: option.splits)

lemma lru_get_capacity: "lru_capacity (snd (lru_get c k)) = lru_capacity c"
  by (simp add: lru_get_def split: option.splits)

lemma lru_set_capacity: "lru_capacity (lru_set c k v) = lru_capacity c"
  by (simp add: lru_set_def)

lemma lru_get_set:
  assumes "distinct (map fst (lru_items c))"
  shows "set (lru_items (snd (lru_get c k))) = set (lru_items c)"
proof (cases "map_of (lru_items c) k")
  case None
  then show ?thesis by (simp add: lru_get_def)
next
  case (Some v)
  then have in_c: "(k, v) \<in> set (lru_items c)"
    by (rule map_of_SomeD)
  have uniq: "v' = v" if "(k, v') \<in> set (lru_items c)" for v'
  proof -
    from assms that have "map_of (lru_items c) k = Some v'"
      by simp
    with Some show ?thesis by simp
  qed
  have "insert (k, v) {p \<in> set (lru_items c). fst p \<noteq> k} = set (lru_items c)"
  proof
    show "insert (k, v) {p \<in> set (lru_items c). fst p \<noteq> k} \<subseteq> set (lru_items c)"
      using in_c by blast
    show "set (lru_items c) \<subseteq> insert (k, v) {p \<in> set (lru_items c). fst p \<noteq> k}"
    proof
      fix p
      assume p: "p \<in> set (lru_items c)"
      show "p \<in> insert (k, v) {p \<in> set (lru_items c). fst p \<noteq> k}"
      proof (cases "fst p = k")
        case True
        then have "p = (k, snd p)"
          by (metis prod.collapse)
        with p uniq [of "snd p"] show ?thesis
          by simp
      next
        case False
        with p show ?thesis by simp
      qed
    qed
  qed
  with Some show ?thesis
    by (simp add: lru_get_def)
qed

lemma distinct_filter_key:
  "distinct (map f xs) \<Longrightarrow> distinct (map f (filter P xs))"
  by (simp add: distinct_map_filter)

lemma lru_get_distinct_fst:
  assumes "distinct (map fst (lru_items c))"
  shows "distinct (map fst (lru_items (snd (lru_get c k))))"
  using assms by (auto simp: lru_get_def distinct_filter_key split: option.splits)

lemma lru_get_distinct_snd:
  assumes "distinct (map fst (lru_items c))" and "distinct (map snd (lru_items c))"
  shows "distinct (map snd (lru_items (snd (lru_get c k))))"
proof (cases "map_of (lru_items c) k")
  case None
  with assms(2) show ?thesis by (simp add: lru_get_def)
next
  case (Some v)
  then have in_c: "(k, v) \<in> set (lru_items c)"
    by (rule map_of_SomeD)
  have "v \<notin> snd ` {p \<in> set (lru_items c). fst p \<noteq> k}"
  proof
    assume "v \<in> snd ` {p \<in> set (lru_items c). fst p \<noteq> k}"
    then obtain k' where "(k', v) \<in> set (lru_items c)" "k' \<noteq> k"
      by auto
    with in_c assms(2) have "inj_on snd (set (lru_items c))"
      by (simp add: distinct_map)
    from inj_onD [OF this, of "(k', v)" "(k, v)"] in_c \<open>(k', v) \<in> set (lru_items c)\<close>
    have "(k', v) = (k, v)"
      by simp
    with \<open>k' \<noteq> k\<close> show False
      by simp
  qed
  with Some assms(2) show ?thesis
    by (simp add: lru_get_def distinct_filter_key)
qed

lemma lru_set_subset:
  "set (lru_items (lru_set c k v)) \<subseteq> insert (k, v) {p \<in> set (lru_items c). fst p \<noteq> k}"
proof -
  have "set (take (lru_capacity c) ((k, v) # filter (\<lambda>p. fst p \<noteq> k) (lru_items c)))
          \<subseteq> set ((k, v) # filter (\<lambda>p. fst p \<noteq> k) (lru_items c))"
    by (rule set_take_subset)
  then show ?thesis
    by (auto simp: lru_set_def)
qed

lemma lru_set_mem:
  "0 < lru_capacity c \<Longrightarrow> (k, v) \<in> set (lru_items (lru_set c k v))"
  by (cases "lru_capacity c") (simp_all add: lru_set_def)

lemma lru_set_distinct_fst:
  assumes "distinct (map fst (lru_items c))"
  shows "distinct (map fst (lru_items (lru_set c k v)))"
proof -
  have "distinct (map fst ((k, v) # filter (\<lambda>p. fst p \<noteq> k) (lru_items c)))"
    using assms by (auto simp: distinct_filter_key)
  then have "distinct (take (lru_capacity c) (map fst ((k, v) # filter (\<lambda>p. fst p \<noteq> k) (lru_items c))))"
    by (rule distinct_take)
  then have "distinct (map fst (take (lru_capacity c) ((k, v) # filter (\<lambda>p. fst p \<noteq> k) (lru_items c))))"
    by (simp only: take_map)
  then show ?thesis
    by (simp add: lru_set_def)
qed

lemma lru_set_distinct_snd:
  assumes "distinct (map snd (lru_items c))"
    and "\<And>k' v'. (k', v') \<in> set (lru_items c) \<Longrightarrow> v' = v \<Longrightarrow> k' = k"
  shows "distinct (map snd (lru_items (lru_set c k v)))"
proof -
  have "v \<notin> snd ` {p \<in> set (lru_items c). fst p \<noteq> k}"
    using assms(2) by auto
  then have "distinct (map snd ((k, v) # filter (\<lambda>p. fst p \<noteq> k) (lru_items c)))"
    using assms(1) by (simp add: distinct_filter_key)
  then have "distinct (take (lru_capacity c) (map snd ((k, v) # filter (\<lambda>p. fst p \<noteq> k) (lru_items c))))"
    by (rule distinct_take)
  then have "distinct (map snd (take (lru_capacity c) ((k, v) # filter (\<lambda>p. fst p \<noteq> k) (lru_items c))))"
    by (simp only: take_map)
  then show ?thesis
    by (simp add: lru_set_def)
qed

section \<open>getAccount on a well-formed state\<close>

lemma dbview_cached:
  assumes "coherent s" and "(a, r) \<in> set (lru_items (sm_stateCache s))"
  shows "sm_accountHeap s r = dbview s a"
  using assms by (force simp: coherent_def dbview_def)

lemma getAccount_hit:
  assumes "map_of (lru_items (sm_stateCache s)) a = Some r"
  shows "getAccount s a = (r, s \<lparr> sm_stateCache := snd (lru_get (sm_stateCache s) a) \<rparr>)"
  using assms by (simp add: getAccount_def lru_get_def)

lemma getAccount_miss_none:
  assumes "map_of (lru_items (sm_stateCache s)) a = None" and "sm_dbAccounts s a = None"
  shows "getAccount s a = new_account s (createEmptyAccount a)"
  using assms by (simp add: getAccount_def lru_get_def)

lemma getAccount_miss_some:
  assumes "map_of (lru_items (sm_stateCache s)) a = None" and "sm_dbAccounts s a = Some acc"
  shows "getAccount s a =
     (sm_accountNext s,
      s \<lparr> sm_accountHeap := (sm_accountHeap s)(sm_accountNext s := acc),
          sm_accountNext := Suc (sm_accountNext s),
          sm_stateCache := lru_set (sm_stateCache s) a (sm_accountNext s) \<rparr>)"
  using assms by (simp add: getAccount_def lru_get_def new_account_def)

lemma cache_wfD:
  assumes "cache_wf s"
  shows "0 < lru_capacity (sm_stateCache s)"
    and "distinct (map fst (lru_items (sm_stateCache s)))"
    and "distinct (map snd (lru_items (sm_stateCache s)))"
    and "\<And>p. p \<in> set (lru_items (sm_stateCache s)) \<Longrightarrow> snd p < sm_accountNext s"
  using assms by (simp_all add: cache_wf_def)

lemma cached_not_next:
  assumes "cache_wf s" and "p \<in> set (lru_items (sm_stateCache s))"
  shows "snd p \<noteq> sm_accountNext s"
  using cache_wfD(4) [OF assms] by simp

lemma getAccount_post_hit:
  assumes wf: "cache_wf s" and coh: "coherent s"
    and hit: "map_of (lru_items (sm_stateCache s)) a = Some r"
  shows "getAccount_post s a r (s \<lparr> sm_stateCache := snd (lru_get (sm_stateCache s) a) \<rparr>)"
proof -
  let ?items = "lru_items (sm_stateCache s)"
  let ?s' = "s \<lparr> sm_stateCache := snd (lru_get (sm_stateCache s) a) \<rparr>"
  note dk = cache_wfD(2) [OF wf]
  have in_c: "(a, r) \<in> set ?items"
    using hit by (rule map_of_SomeD)
  have same: "set (lru_items (snd (lru_get (sm_stateCache s) a))) = set ?items"
    using dk by (rule lru_get_set)
  have uniq: "r = r'" if "(a, r') \<in> set ?items" for r'
  proof -
    from dk that have "map_of ?items a = Some r'" by simp
    with hit show ?thesis by simp
  qed
  have 1: "cache_wf ?s'"
    unfolding cache_wf_def using cache_wfD [OF wf]
    by (simp add: lru_get_capacity lru_get_distinct_fst lru_get_distinct_snd same)
  have 2: "coherent ?s'"
    using coh unfolding coherent_def by (simp add: same)
  have 3: "sm_accountHeap ?s' r = dbview s a"
    using dbview_cached [OF coh in_c] by simp
  have 4: "r < sm_accountNext ?s'"
    using cache_wfD(4) [OF wf in_c] by simp
  have 5: "set (lru_items (sm_stateCache ?s')) \<subseteq> insert (a, r) (set ?items)"
    by (auto simp: same)
  have 6: "sm_dbAccounts ?s' = sm_dbAccounts s" "block_part ?s' = block_part s"
    "sm_accountNext s \<le> sm_accountNext ?s'"
    "\<forall>y. y < sm_accountNext s \<longrightarrow> sm_accountHeap ?s' y = sm_accountHeap s y"
    by (simp_all add: block_part_def)
  have 7: "(a, r) \<in> set (lru_items (sm_stateCache ?s'))"
    using in_c by (simp add: same)
  show ?thesis
    unfolding getAccount_post_def using 1 2 3 4 5 6 7 in_c uniq
    by blast
qed

lemma not_cached:
  assumes "map_of (lru_items (sm_stateCache s)) a = None"
  shows "(a, r') \<notin> set (lru_items (sm_stateCache s))"
proof
  assume "(a, r') \<in> set (lru_items (sm_stateCache s))"
  then have "a \<in> fst ` set (lru_items (sm_stateCache s))"
    by (rule rev_image_eqI) simp
  with assms show False
    by (simp add: map_of_eq_None_iff)
qed

lemma getAccount_post_none:
  assumes wf: "cache_wf s" and coh: "coherent s"
    and miss: "map_of (lru_items (sm_stateCache s)) a = None"
    and none: "sm_dbAccounts s a = None"
  shows "getAccount_post s a (sm_accountNext s)
           (s \<lparr> sm_accountHeap := (sm_accountHeap s)(sm_accountNext s := createEmptyAccount a),
                sm_accountNext := Suc (sm_accountNext s) \<rparr>)"
proof -
  let ?items = "lru_items (sm_stateCache s)"
  let ?s' = "s \<lparr> sm_accountHeap := (sm_accountHeap s)(sm_accountNext s := createEmptyAccount a),
                sm_accountNext := Suc (sm_accountNext s) \<rparr>"
  have 1: "cache_wf ?s'"
    unfolding cache_wf_def using cache_wfD [OF wf] by (simp add: less_Suc_eq)
  have 2: "coherent ?s'"
    unfolding coherent_def
  proof
    fix p
    assume "p \<in> set (lru_items (sm_stateCache ?s'))"
    then have p: "p \<in> set ?items" by simp
    from cached_not_next [OF wf p] coh p
    show "sm_dbAccounts ?s' (fst p) = Some (sm_accountHeap ?s' (snd p))"
      by (simp add: coherent_def)
  qed
  have 3: "sm_accountHeap ?s' (sm_accountNext s) = dbview s a"
    using none by (simp add: dbview_def)
  have 6: "sm_dbAccounts ?s' = sm_dbAccounts s" "block_part ?s' = block_part s"
    "sm_accountNext s < sm_accountNext ?s'"
    "\<forall>y. y < sm_accountNext s \<longrightarrow> sm_accountHeap ?s' y = sm_accountHeap s y"
    "set (lru_items (sm_stateCache ?s')) = set ?items"
    by (simp_all add: block_part_def)
  show ?thesis
    unfolding getAccount_post_def using 1 2 3 6 none not_cached [OF miss]
    by (intro conjI) (blast, blast, blast, blast, blast, blast, simp, blast, blast, blast, blast, blast)
qed

lemma getAccount_post_some:
  assumes wf: "cache_wf s" and coh: "coherent s"
    and miss: "map_of (lru_items (sm_stateCache s)) a = None"
    and some: "sm_dbAccounts s a = Some acc"
  shows "getAccount_post s a (sm_accountNext s)
           (s \<lparr> sm_accountHeap := (sm_accountHeap s)(sm_accountNext s := acc),
                sm_accountNext := Suc (sm_accountNext s),
                sm_stateCache := lru_set (sm_stateCache s) a (sm_accountNext s) \<rparr>)"
proof -
  let ?items = "lru_items (sm_stateCache s)"
  let ?n = "sm_accountNext s"
  let ?s' = "s \<lparr> sm_accountHeap := (sm_accountHeap s)(?n := acc), sm_accountNext := Suc ?n,
                sm_stateCache := lru_set (sm_stateCache s) a ?n \<rparr>"
  have sub: "set (lru_items (lru_set (sm_stateCache s) a ?n))
               \<subseteq> insert (a, ?n) {p \<in> set ?items. fst p \<noteq> a}"
    by (rule lru_set_subset)
  have fresh: "k' = a" if "(k', v') \<in> set ?items" "v' = ?n" for k' v'
    using cached_not_next [OF wf that(1)] that(2) by simp
  have alloc': "snd p < Suc ?n" if "p \<in> set (lru_items (lru_set (sm_stateCache s) a ?n))" for p
  proof -
    from that sub have "p = (a, ?n) \<or> p \<in> set ?items" by blast
    then show ?thesis
      using cache_wfD(4) [OF wf, of p] by (auto simp: less_Suc_eq)
  qed
  have ds: "distinct (map snd (lru_items (lru_set (sm_stateCache s) a ?n)))"
    using cache_wfD(3) [OF wf] fresh by (rule lru_set_distinct_snd)
  have 1: "cache_wf ?s'"
    unfolding cache_wf_def using cache_wfD(1-2) [OF wf] alloc' ds
    by (simp add: lru_set_capacity lru_set_distinct_fst)
  have 2: "coherent ?s'"
    unfolding coherent_def
  proof
    fix p
    assume "p \<in> set (lru_items (sm_stateCache ?s'))"
    then have "p = (a, ?n) \<or> p \<in> set ?items"
      using sub by auto
    then show "sm_dbAccounts ?s' (fst p) = Some (sm_accountHeap ?s' (snd p))"
    proof
      assume "p = (a, ?n)"
      with some show ?thesis by simp
    next
      assume p: "p \<in> set ?items"
      from cached_not_next [OF wf p] coh p show ?thesis
        by (simp add: coherent_def)
    qed
  qed
  have 3: "sm_accountHeap ?s' ?n = dbview s a"
    using some by (simp add: dbview_def)
  have 4: "(a, ?n) \<in> set (lru_items (sm_stateCache ?s'))"
    using cache_wfD(1) [OF wf] by (simp add: lru_set_mem)
  have 5: "set (lru_items (sm_stateCache ?s')) \<subseteq> insert (a, ?n) (set ?items)"
    using sub by auto
  have 6: "sm_dbAccounts ?s' = sm_dbAccounts s" "block_part ?s' = block_part s"
    "sm_accountNext s < sm_accountNext ?s'"
    "\<forall>y. y < sm_accountNext s \<longrightarrow> sm_accountHeap ?s' y = sm_accountHeap s y"
    by (simp_all add: block_part_def)
  show ?thesis
    unfolding getAccount_post_def using 1 2 3 4 5 6 not_cached [OF miss]
    by (intro conjI) (blast, blast, blast, blast, blast, blast, simp, blast, blast, blast, blast, blast)
qed

lemma getAccount_post:
  assumes "cache_wf s" and "coherent s" and "getAccount s a = (r, s')"
  shows "getAccount_post s a r s'"
proof (cases "map_of (lru_items (sm_stateCache s)) a")
  case (Some r0)
  from getAccount_hit [OF Some] assms(3) getAccount_post_hit [OF assms(1,2) Some]
  show ?thesis by simp
next
  case None
  show ?thesis
  proof (cases "sm_dbAccounts s a")
    case none: None
    from getAccount_miss_none [OF None none] assms(3) getAccount_post_none [OF assms(1,2) None none]
    show ?thesis by (simp add: new_account_def)
  next
    case (Some acc)
    from getAccount_miss_some [OF None Some] assms(3) getAccount_post_some [OF assms(1,2) None Some]
    show ?thesis by simp
  qed
qed

lemma getAccount_own:
  assumes wf: "cache_wf s" and post: "getAccount_post s a r s'"
  shows "own s' a r"
  unfolding own_def
proof (intro ballI impI)
  let ?items = "lru_items (sm_stateCache s)"
  fix p
  assume p: "p \<in> set (lru_items (sm_stateCache s'))" and r: "snd p = r"
  from post have sub: "set (lru_items (sm_stateCache s')) \<subseteq> insert (a, r) (set ?items)"
    and old: "r = sm_accountNext s \<or> (a, r) \<in> set ?items"
    by (simp_all add: getAccount_post_def)
  from p sub have "p = (a, r) \<or> p \<in> set ?items" by blast
  then show "fst p = a"
  proof
    assume "p = (a, r)"
    then show ?thesis by simp
  next
    assume in_s: "p \<in> set ?items"
    from old show ?thesis
    proof
      assume "r = sm_accountNext s"
      with cached_not_next [OF wf in_s] r show ?thesis by simp
    next
      assume ar: "(a, r) \<in> set ?items"
      have "inj_on snd (set ?items)"
        using cache_wfD(3) [OF wf] by (simp add: distinct_map)
      from inj_onD [OF this, of p "(a, r)"] in_s ar r have "p = (a, r)"
        by simp
      then show ?thesis by simp
    qed
  qed
qed

section \<open>updateAccount on a well-formed state\<close>

lemma updateAccount_eq:
  "updateAccount s a r =
     (if valid_account (sm_accountHeap s r) then (None, write_through s a r)
      else (Some (JsError StateError ''Failed to update account: Invalid account state''), s))"
  by (simp add: updateAccount_def validateAccount_def valid_account_def write_through_def not_less)

lemma write_through_fields:
  "sm_accountHeap (write_through s a r) = sm_accountHeap s"
  "sm_accountNext (write_through s a r) = sm_accountNext s"
  "block_part (write_through s a r) = block_part s"
  "sm_dbAccounts (write_through s a r) = (sm_dbAccounts s)(a \<mapsto> sm_accountHeap s r)"
  "sm_stateCache (write_through s a r) = lru_set (sm_stateCache s) a r"
  by (simp_all add: write_through_def block_part_def)

lemma write_through_items:
  assumes "p \<in> set (lru_items (sm_stateCache (write_through s a r)))"
  shows "p = (a, r) \<or> (p \<in> set (lru_items (sm_stateCache s)) \<and> fst p \<noteq> a)"
  using assms lru_set_subset [of "sm_stateCache s" a r]
  by (auto simp: write_through_fields)

lemma ownD:
  assumes "own s a r" and "p \<in> set (lru_items (sm_stateCache s))" and "snd p = r"
  shows "fst p = a"
  using assms unfolding own_def by blast

lemma write_through_wf:
  assumes wf: "cache_wf s" and own: "own s a r" and alloc: "r < sm_accountNext s"
  shows "cache_wf (write_through s a r)"
proof -
  have "k' = a" if "(k', v') \<in> set (lru_items (sm_stateCache s))" "v' = r" for k' v'
    using ownD [OF own that(1)] that(2) by simp
  with cache_wfD(3) [OF wf]
  have ds: "distinct (map snd (lru_items (lru_set (sm_stateCache s) a r)))"
    by (rule lru_set_distinct_snd)
  have al: "snd p < sm_accountNext s"
    if "p \<in> set (lru_items (sm_stateCache (write_through s a r)))" for p
    using write_through_items [OF that] alloc cache_wfD(4) [OF wf, of p] by auto
  show ?thesis
    unfolding cache_wf_def using cache_wfD(1-2) [OF wf] ds al
    by (simp add: write_through_fields lru_set_capacity lru_set_distinct_fst)
qed

lemma write_through_coherent:
  assumes coh: "coherent_except s R" and own: "own s a r"
  shows "coherent_except (write_through s a r) (R - {r})"
  unfolding coherent_except_def
proof (intro ballI impI)
  fix p
  assume p: "p \<in> set (lru_items (sm_stateCache (write_through s a r)))"
    and notR: "snd p \<notin> R - {r}"
  from write_through_items [OF p]
  show "sm_dbAccounts (write_through s a r) (fst p)
          = Some (sm_accountHeap (write_through s a r) (snd p))"
  proof
    assume "p = (a, r)"
    then show ?thesis by (simp add: write_through_fields)
  next
    assume old: "p \<in> set (lru_items (sm_stateCache s)) \<and> fst p \<noteq> a"
    then have "snd p \<noteq> r"
      using ownD [OF own, of p] by blast
    with notR have "snd p \<notin> R" by simp
    with coh old have "sm_dbAccounts s (fst p) = Some (sm_accountHeap s (snd p))"
      unfolding coherent_except_def by blast
    with old show ?thesis by (simp add: write_through_fields)
  qed
qed

lemma write_through_own:
  assumes "own s c q" and "q = r \<Longrightarrow> c = a"
  shows "own (write_through s a r) c q"
  unfolding own_def
proof (intro ballI impI)
  fix p
  assume p: "p \<in> set (lru_items (sm_stateCache (write_through s a r)))" and q: "snd p = q"
  from write_through_items [OF p] show "fst p = c"
  proof
    assume "p = (a, r)"
    with q assms(2) show ?thesis by simp
  next
    assume "p \<in> set (lru_items (sm_stateCache s)) \<and> fst p \<noteq> a"
    with ownD [OF assms(1) _ q] show ?thesis by blast
  qed
qed

lemma write_through_db_valid:
  assumes "db_valid s" and "valid_account (sm_accountHeap s r)"
  shows "db_valid (write_through s a r)"
  using assms by (simp add: db_valid_def write_through_fields)

lemma coherent_except_empty: "coherent_except s {} = coherent s"
  by (simp add: coherent_except_def coherent_def)

text \<open>Writing back two objects, the second perhaps the same as the first.\<close>

lemma write_back_two:
  assumes wf: "cache_wf t" and coh: "coherent_except t {r1, r2}"
    and own1: "own t a r1" and own2: "own t b r2"
    and al1: "r1 < sm_accountNext t" and al2: "r2 < sm_accountNext t"
    and same_obj: "r1 = r2 \<Longrightarrow> a = b"
    and dbv: "db_valid t"
    and v1: "valid_account (sm_accountHeap t r1)" and v2: "valid_account (sm_accountHeap t r2)"
  shows "cache_wf (write_through (write_through t a r1) b r2)"
    and "coherent (write_through (write_through t a r1) b r2)"
    and "db_valid (write_through (write_through t a r1) b r2)"
    and "sm_dbAccounts (write_through (write_through t a r1) b r2)
           = (sm_dbAccounts t)(a \<mapsto> sm_accountHeap t r1, b \<mapsto> sm_accountHeap t r2)"
    and "block_part (write_through (write_through t a r1) b r2) = block_part t"
proof -
  let ?t1 = "write_through t a r1"
  let ?t2 = "write_through ?t1 b r2"
  have wf1: "cache_wf ?t1"
    using wf own1 al1 by (rule write_through_wf)
  have own2': "own ?t1 b r2"
  proof (rule write_through_own [OF own2])
    assume "r2 = r1"
    then show "b = a" using same_obj by simp
  qed
  show "cache_wf ?t2"
  proof (rule write_through_wf [OF wf1 own2'])
    show "r2 < sm_accountNext ?t1"
      using al2 by (simp add: write_through_fields)
  qed
  have "coherent_except ?t1 ({r1, r2} - {r1})"
    using coh own1 by (rule write_through_coherent)
  then have ce: "coherent_except ?t2 ({r1, r2} - {r1} - {r2})"
    using own2' by (rule write_through_coherent)
  have e: "{r1, r2} - {r1} - {r2} = {}"
    by blast
  from ce show "coherent ?t2"
    unfolding e by (simp only: coherent_except_empty)
  have dbv1: "db_valid ?t1"
    using dbv v1 by (rule write_through_db_valid)
  show "db_valid ?t2"
  proof (rule write_through_db_valid [OF dbv1])
    show "valid_account (sm_accountHeap ?t1 r2)"
      using v2 by (simp add: write_through_fields)
  qed
  show "sm_dbAccounts ?t2 = (sm_dbAccounts t)(a \<mapsto> sm_accountHeap t r1, b \<mapsto> sm_accountHeap t r2)"
    by (simp add: write_through_fields)
  show "block_part ?t2 = block_part t"
    by (simp add: write_through_fields)
qed

section \<open>The two reads of a transaction\<close>

lemma getAccount_postD:
  assumes "getAccount_post s a r s'"
  shows "cache_wf s'" and "coherent s'" and "sm_dbAccounts s' = sm_dbAccounts s"
    and "block_part s' = block_part s"
    and "sm_accountHeap s' r = dbview s a"
    and "r < sm_accountNext s'" and "sm_accountNext s \<le> sm_accountNext s'"
    and "\<forall>y. y < sm_accountNext s \<longrightarrow> sm_accountHeap s' y = sm_accountHeap s y"
    and "set (lru_items (sm_stateCache s')) \<subseteq> insert (a, r) (set (lru_items (sm_stateCache s)))"
    and "(a, r) \<in> set (lru_items (sm_stateCache s'))
          \<or> (sm_dbAccounts s a = None \<and> r = sm_accountNext s)"
    and "r = sm_accountNext s \<or> (a, r) \<in> set (lru_items (sm_stateCache s))"
    and "\<forall>r'. (a, r') \<in> set (lru_items (sm_stateCache s)) \<longrightarrow> r = r'"
  using assms unfolding getAccount_post_def by blast+

lemma two_gets:
  assumes wf: "cache_wf s" and coh: "coherent s"
    and g1: "getAccount s a = (r1, s1)" and g2: "getAccount s1 b = (r2, s2)"
  shows "cache_wf s2" and "coherent s2" and "sm_dbAccounts s2 = sm_dbAccounts s"
    and "block_part s2 = block_part s"
    and "sm_accountHeap s2 r1 = dbview s a" and "sm_accountHeap s2 r2 = dbview s b"
    and "r1 < sm_accountNext s2" and "r2 < sm_accountNext s2"
    and "own s2 a r1" and "own s2 b r2"
    and "r1 = r2 \<Longrightarrow> a = b"
    and "a = b \<Longrightarrow> r1 = r2 \<or> sm_dbAccounts s a = None"
proof -
  have p1: "getAccount_post s a r1 s1"
    using wf coh g1 by (rule getAccount_post)
  note wf1 = getAccount_postD(1) [OF p1] and coh1 = getAccount_postD(2) [OF p1]
  have p2: "getAccount_post s1 b r2 s2"
    using wf1 coh1 g2 by (rule getAccount_post)
  have own1: "own s1 a r1"
    using wf p1 by (rule getAccount_own)
  show own2: "own s2 b r2"
    using wf1 p2 by (rule getAccount_own)
  note al1 = getAccount_postD(6) [OF p1] and db1 = getAccount_postD(3) [OF p1]
    and h1 = getAccount_postD(5) [OF p1] and b1 = getAccount_postD(4) [OF p1]
  have c1: "(a, r1) \<in> set (lru_items (sm_stateCache s1)) \<or> sm_dbAccounts s a = None"
    using getAccount_postD(10) [OF p1] by auto
  note al2 = getAccount_postD(6) [OF p2] and mono = getAccount_postD(7) [OF p2]
    and db2 = getAccount_postD(3) [OF p2] and h2 = getAccount_postD(5) [OF p2]
    and sub2 = getAccount_postD(9) [OF p2] and old2 = getAccount_postD(11) [OF p2]
    and b2 = getAccount_postD(4) [OF p2]
  have keep: "sm_accountHeap s2 y = sm_accountHeap s1 y" if "y < sm_accountNext s1" for y
    using getAccount_postD(8) [OF p2] that by blast
  have hit2: "r2 = r'" if "(b, r') \<in> set (lru_items (sm_stateCache s1))" for r'
    using getAccount_postD(12) [OF p2] that by blast
  show "cache_wf s2" and "coherent s2"
    using getAccount_postD(1,2) [OF p2] by blast+
  show "sm_dbAccounts s2 = sm_dbAccounts s"
    using db1 db2 by simp
  show "block_part s2 = block_part s"
    using b1 b2 by simp
  show "sm_accountHeap s2 r1 = dbview s a"
    using keep [OF al1] h1 by simp
  show "sm_accountHeap s2 r2 = dbview s b"
    using h2 db1 by (simp add: dbview_def)
  show "r1 < sm_accountNext s2"
    using al1 mono by simp
  show "r2 < sm_accountNext s2"
    by (rule al2)
  show same_obj: "a = b" if eq: "r1 = r2"
  proof -
    from al1 eq have "r2 \<noteq> sm_accountNext s1"
      by simp
    with old2 eq have "(b, r1) \<in> set (lru_items (sm_stateCache s1))"
      by simp
    from ownD [OF own1 this] show ?thesis by simp
  qed
  show "own s2 a r1"
    unfolding own_def
  proof (intro ballI impI)
    fix p
    assume p: "p \<in> set (lru_items (sm_stateCache s2))" and r: "snd p = r1"
    from p sub2 have "p = (b, r2) \<or> p \<in> set (lru_items (sm_stateCache s1))"
      by blast
    then show "fst p = a"
    proof
      assume "p = (b, r2)"
      with r same_obj show ?thesis by simp
    next
      assume "p \<in> set (lru_items (sm_stateCache s1))"
      from ownD [OF own1 this r] show ?thesis .
    qed
  qed
  show "r1 = r2 \<or> sm_dbAccounts s a = None" if "a = b"
  proof (cases "sm_dbAccounts s a = None")
    case True
    then show ?thesis by simp
  next
    case False
    with c1 have "(a, r1) \<in> set (lru_items (sm_stateCache s1))"
      by simp
    with hit2 [of r1] that show ?thesis by simp
  qed
qed

section \<open>applyTransaction and revertTransaction on a well-formed state\<close>

lemma applyTransaction_unfold:
  assumes "getAccount s (sm_from tx) = (r1, s1)" and "getAccount s1 (sm_to tx) = (r2, s2)"
  shows "applyTransaction s tx =
     (if acc_balance (sm_accountHeap s2 r1) < sm_value tx + sm_fee tx
      then (Some (JsError StateError ''Transaction application failed: Insufficient balance''), s2)
      else (let t = s2 \<lparr> sm_accountHeap := apply_heap tx (sm_accountHeap s2) r1 r2 \<rparr>
            in if \<not> valid_account (sm_accountHeap t r1)
               then (Some (JsError StateError
                       ''Transaction application failed: Failed to update account: Invalid account state''), t)
               else if \<not> valid_account (sm_accountHeap t r2)
               then (Some (JsError StateError
                       ''Transaction application failed: Failed to update account: Invalid account state''),
                     write_through t (sm_from tx) r1)
               else (None, write_through (write_through t (sm_from tx) r1) (sm_to tx) r2)))"
proof -
  have heap: "set_balance
          (set_nonce (set_balance s2 r1 (acc_balance (sm_accountHeap s2 r1) - (sm_value tx + sm_fee tx))) r1
             (js_plus (acc_nonce (sm_accountHeap
                 (set_balance s2 r1 (acc_balance (sm_accountHeap s2 r1) - (sm_value tx + sm_fee tx))) r1)) 1))
          r2
          (acc_balance (sm_accountHeap
             (set_nonce (set_balance s2 r1 (acc_balance (sm_accountHeap s2 r1) - (sm_value tx + sm_fee tx))) r1
                (js_plus (acc_nonce (sm_accountHeap
                   (set_balance s2 r1 (acc_balance (sm_accountHeap s2 r1) - (sm_value tx + sm_fee tx))) r1)) 1))
             r2) + sm_value tx)
        = s2 \<lparr> sm_accountHeap := apply_heap tx (sm_accountHeap s2) r1 r2 \<rparr>"
    by (simp add: set_balance_def set_nonce_def apply_heap_def debit_def credit_def Let_def)
  show ?thesis
    unfolding applyTransaction_def assms Let_def prod.case heap
    by (simp add: updateAccount_eq write_through_fields)
qed

lemma revertTransaction_unfold:
  assumes "getAccount s (sm_from tx) = (r1, s1)" and "getAccount s1 (sm_to tx) = (r2, s2)"
  shows "revertTransaction s tx =
     (let t = s2 \<lparr> sm_accountHeap := revert_heap tx (sm_accountHeap s2) r1 r2 \<rparr>
      in if \<not> valid_account (sm_accountHeap t r1)
         then (Some (JsError StateError ''Failed to update account: Invalid account state''), t)
         else if \<not> valid_account (sm_accountHeap t r2)
         then (Some (JsError StateError ''Failed to update account: Invalid account state''),
               write_through t (sm_from tx) r1)
         else (None, write_through (write_through t (sm_from tx) r1) (sm_to tx) r2))"
proof -
  have heap: "set_balance
          (set_nonce (set_balance s2 r1 (acc_balance (sm_accountHeap s2 r1) + (sm_value tx + sm_fee tx))) r1
             (js_minus (acc_nonce (sm_accountHeap
                 (set_balance s2 r1 (acc_balance (sm_accountHeap s2 r1) + (sm_value tx + sm_fee tx))) r1)) 1))
          r2
          (acc_balance (sm_accountHeap
             (set_nonce (set_balance s2 r1 (acc_balance (sm_accountHeap s2 r1) + (sm_value tx + sm_fee tx))) r1
                (js_minus (acc_nonce (sm_accountHeap
                   (set_balance s2 r1 (acc_balance (sm_accountHeap s2 r1) + (sm_value tx + sm_fee tx))) r1)) 1))
             r2) - sm_value tx)
        = s2 \<lparr> sm_accountHeap := revert_heap tx (sm_accountHeap s2) r1 r2 \<rparr>"
    by (simp add: set_balance_def set_nonce_def revert_heap_def undebit_def uncredit_def Let_def)
  show ?thesis
    unfolding revertTransaction_def assms Let_def prod.case heap
    by (simp add: updateAccount_eq write_through_fields)
qed

text \<open>
  The state between the assignments and the two calls of \<open>updateAccount\<close>: the cache
  and the store are those after the two reads, the two objects have new values.
\<close>

lemma dirty_state:
  assumes wf: "cache_wf s2" and coh: "coherent s2"
    and own1: "own s2 a r1" and own2: "own s2 b r2"
    and al1: "r1 < sm_accountNext s2" and al2: "r2 < sm_accountNext s2"
    and same_obj: "r1 = r2 \<Longrightarrow> a = b"
    and dbv: "db_valid s2"
    and outside: "\<And>y. y \<noteq> r1 \<Longrightarrow> y \<noteq> r2 \<Longrightarrow> H y = sm_accountHeap s2 y"
    and v1: "valid_account (H r1)" and v2: "valid_account (H r2)"
  shows "cache_wf (write_through (write_through (s2 \<lparr> sm_accountHeap := H \<rparr>) a r1) b r2)"
    and "coherent (write_through (write_through (s2 \<lparr> sm_accountHeap := H \<rparr>) a r1) b r2)"
    and "db_valid (write_through (write_through (s2 \<lparr> sm_accountHeap := H \<rparr>) a r1) b r2)"
    and "sm_dbAccounts (write_through (write_through (s2 \<lparr> sm_accountHeap := H \<rparr>) a r1) b r2)
           = (sm_dbAccounts s2)(a \<mapsto> H r1, b \<mapsto> H r2)"
    and "block_part (write_through (write_through (s2 \<lparr> sm_accountHeap := H \<rparr>) a r1) b r2)
           = block_part s2"
proof -
  let ?t = "s2 \<lparr> sm_accountHeap := H \<rparr>"
  have wf_t: "cache_wf ?t"
    using wf by (simp add: cache_wf_def)
  have coh_t: "coherent_except ?t {r1, r2}"
    unfolding coherent_except_def
  proof (intro ballI impI)
    fix p
    assume p: "p \<in> set (lru_items (sm_stateCache ?t))" and "snd p \<notin> {r1, r2}"
    then have "H (snd p) = sm_accountHeap s2 (snd p)"
      using outside by simp
    with coh p show "sm_dbAccounts ?t (fst p) = Some (sm_accountHeap ?t (snd p))"
      by (simp add: coherent_def)
  qed
  have own_t: "own ?t a r1" "own ?t b r2"
    using own1 own2 by (simp_all add: own_def)
  have al_t: "r1 < sm_accountNext ?t" "r2 < sm_accountNext ?t"
    using al1 al2 by simp_all
  have dbv_t: "db_valid ?t"
    using dbv by (simp add: db_valid_def)
  have v_t: "valid_account (sm_accountHeap ?t r1)" "valid_account (sm_accountHeap ?t r2)"
    using v1 v2 by simp_all
  note wb = write_back_two [OF wf_t coh_t own_t al_t same_obj dbv_t v_t]
  show "cache_wf (write_through (write_through ?t a r1) b r2)"
    by (rule wb(1))
  show "coherent (write_through (write_through ?t a r1) b r2)"
    by (rule wb(2))
  show "db_valid (write_through (write_through ?t a r1) b r2)"
    by (rule wb(3))
  show "sm_dbAccounts (write_through (write_through ?t a r1) b r2) = (sm_dbAccounts s2)(a \<mapsto> H r1, b \<mapsto> H r2)"
    using wb(4) by simp
  show "block_part (write_through (write_through ?t a r1) b r2) = block_part s2"
    using wb(5) by (simp add: block_part_def)
qed

lemma dbview_upd2:
  assumes "sm_dbAccounts s' = (sm_dbAccounts s)(a \<mapsto> x, b \<mapsto> y)"
  shows "dbview s' = (dbview s)(a := x, b := y)"
  using assms by (auto simp: dbview_def fun_eq_iff)

lemma sm_invD:
  assumes "sm_inv s"
  shows "cache_wf s" and "coherent s" and "db_valid s" and "0 < lru_capacity (sm_blockCache s)"
  using assms by (simp_all add: sm_inv_def)

lemma dbview_valid:
  assumes "db_valid s"
  shows "valid_account (dbview s a)"
  using assms
  by (auto simp: db_valid_def dbview_def valid_account_def createEmptyAccount_def split: option.splits)

lemma apply_heap_values:
  "apply_heap tx H r1 r2 r1 = (if r1 = r2 then credit tx (debit tx (H r1)) else debit tx (H r1))"
  "apply_heap tx H r1 r2 r2 = (if r1 = r2 then credit tx (debit tx (H r1)) else credit tx (H r2))"
  "y \<noteq> r1 \<Longrightarrow> y \<noteq> r2 \<Longrightarrow> apply_heap tx H r1 r2 y = H y"
  by (simp_all add: apply_heap_def Let_def)

lemma revert_heap_values:
  "revert_heap tx H r1 r2 r1 = (if r1 = r2 then uncredit tx (undebit tx (H r1)) else undebit tx (H r1))"
  "revert_heap tx H r1 r2 r2 = (if r1 = r2 then uncredit tx (undebit tx (H r1)) else uncredit tx (H r2))"
  "y \<noteq> r1 \<Longrightarrow> y \<noteq> r2 \<Longrightarrow> revert_heap tx H r1 r2 y = H y"
  by (simp_all add: revert_heap_def Let_def)

lemma applyV_values:
  "applyV tx V (sm_from tx)
     = (if sm_from tx = sm_to tx then credit tx (debit tx (V (sm_from tx))) else debit tx (V (sm_from tx)))"
  "applyV tx V (sm_to tx)
     = (if sm_from tx = sm_to tx then credit tx (debit tx (V (sm_from tx))) else credit tx (V (sm_to tx)))"
  by (simp_all add: applyV_def Let_def)

lemma revertV_values:
  "revertV tx V (sm_from tx)
     = (if sm_from tx = sm_to tx then uncredit tx (undebit tx (V (sm_from tx))) else undebit tx (V (sm_from tx)))"
  "revertV tx V (sm_to tx)
     = (if sm_from tx = sm_to tx then uncredit tx (undebit tx (V (sm_from tx))) else uncredit tx (V (sm_to tx)))"
  by (simp_all add: revertV_def Let_def)

lemma applyV_upd:
  "applyV tx V = V(sm_from tx := applyV tx V (sm_from tx), sm_to tx := applyV tx V (sm_to tx))"
  by (auto simp: applyV_def Let_def fun_eq_iff)

lemma revertV_upd:
  "revertV tx V = V(sm_from tx := revertV tx V (sm_from tx), sm_to tx := revertV tx V (sm_to tx))"
  by (auto simp: revertV_def Let_def fun_eq_iff)

lemma round_to_double_exact: "\<bar>x\<bar> \<le> 2 ^ 53 \<Longrightarrow> round_to_double x = x"
  by (simp add: round_to_double_def)

lemma js_plus_minus_one:
  assumes "0 \<le> n" and "n + 1 \<le> 2 ^ 53"
  shows "js_plus n 1 = n + 1" and "js_minus (js_plus n 1) 1 = n"
proof -
  show 1: "js_plus n 1 = n + 1"
    using assms by (simp add: js_plus_def round_to_double_exact)
  show "js_minus (js_plus n 1) 1 = n"
    unfolding 1 using assms by (simp add: js_minus_def round_to_double_exact)
qed

lemma revertV_applyV:
  assumes "0 \<le> acc_nonce (V (sm_from tx))" and "acc_nonce (V (sm_from tx)) + 1 \<le> 2 ^ 53"
  shows "revertV tx (applyV tx V) = V"
  using js_plus_minus_one(2) [OF assms]
  by (auto simp: revertV_def applyV_def Let_def fun_eq_iff debit_def credit_def undebit_def uncredit_def)

lemma nonce_roomD:
  assumes "nonce_room k s"
  shows "acc_nonce (dbview s a) + int k \<le> 2 ^ 53"
  using assms by (auto simp: nonce_room_def dbview_def createEmptyAccount_def split: option.splits)

text \<open>
  A successful \<open>applyTransaction\<close> of a well-formed transaction on a well-formed state
  leaves a well-formed state whose stored accounts are those before, with the sender
  debited and the recipient credited.
\<close>

lemma applyTransaction_inv:
  assumes inv: "sm_inv s" and wft: "wf_transaction tx"
    and ok: "applyTransaction s tx = (None, s')"
  shows "sm_inv s'" and "dbview s' = applyV tx (dbview s)" and "block_part s' = block_part s"
    and "db_grows s s'"
    and "sm_dbAccounts s' (sm_from tx) \<noteq> None" and "sm_dbAccounts s' (sm_to tx) \<noteq> None"
    and "nonce_room (Suc k) s \<Longrightarrow> nonce_room k s'"
proof -
  obtain r1 s1 where g1: "getAccount s (sm_from tx) = (r1, s1)"
    by (cases "getAccount s (sm_from tx)")
  obtain r2 s2 where g2: "getAccount s1 (sm_to tx) = (r2, s2)"
    by (cases "getAccount s1 (sm_to tx)")
  note T = two_gets [OF sm_invD(1,2) [OF inv] g1 g2]
  let ?H = "apply_heap tx (sm_accountHeap s2) r1 r2"
  let ?t = "s2 \<lparr> sm_accountHeap := ?H \<rparr>"
  from ok have enough: "\<not> acc_balance (sm_accountHeap s2 r1) < sm_value tx + sm_fee tx"
    and v1: "valid_account (?H r1)" and v2: "valid_account (?H r2)"
    and s': "s' = write_through (write_through ?t (sm_from tx) r1) (sm_to tx) r2"
    unfolding applyTransaction_unfold [OF g1 g2] Let_def
    by (simp_all split: if_splits)
  have dbv2: "db_valid s2"
    using sm_invD(3) [OF inv] T(3) by (simp add: db_valid_def)
  have outside: "\<And>y. y \<noteq> r1 \<Longrightarrow> y \<noteq> r2 \<Longrightarrow> ?H y = sm_accountHeap s2 y"
    by (rule apply_heap_values(3))
  note D = dirty_state [OF T(1,2) T(9,10) T(7,8) T(11) dbv2 outside v1 v2]
  have cap: "0 < lru_capacity (sm_blockCache s')"
    using D(5) T(4) sm_invD(4) [OF inv] unfolding s' by (simp add: block_part_def)
  show "sm_inv s'"
    unfolding sm_inv_def using D(1,2,3) cap unfolding s' by simp
  show "block_part s' = block_part s"
    using D(5) T(4) unfolding s' by simp
  have db': "sm_dbAccounts s' = (sm_dbAccounts s)(sm_from tx \<mapsto> ?H r1, sm_to tx \<mapsto> ?H r2)"
    using D(4) T(3) unfolding s' by simp
  show "db_grows s s'" and "sm_dbAccounts s' (sm_from tx) \<noteq> None"
    and "sm_dbAccounts s' (sm_to tx) \<noteq> None"
    unfolding db' db_grows_def by simp_all
  have same_obj: "r1 = r2" if "sm_from tx = sm_to tx"
  proof (rule ccontr)
    assume "r1 \<noteq> r2"
    with T(12) [OF that] have "sm_dbAccounts s (sm_from tx) = None"
      by simp
    then have "acc_balance (sm_accountHeap s2 r1) = 0"
      unfolding T(5) by (simp add: dbview_def createEmptyAccount_def)
    with enough wft show False
      by (simp add: wf_transaction_def)
  qed
  have "?H r1 = applyV tx (dbview s) (sm_from tx)" and "?H r2 = applyV tx (dbview s) (sm_to tx)"
    using same_obj T(11) unfolding apply_heap_values applyV_values T(5,6) by auto
  then have vals: "?H r1 = applyV tx (dbview s) (sm_from tx)" "?H r2 = applyV tx (dbview s) (sm_to tx)"
    by simp_all
  from vals dbview_upd2 [OF db'] show "dbview s' = applyV tx (dbview s)"
    using applyV_upd [of tx "dbview s"] by simp
  show "nonce_room k s'" if room: "nonce_room (Suc k) s"
  proof -
    have from_nonce: "0 \<le> acc_nonce (dbview s (sm_from tx))"
      using dbview_valid [OF sm_invD(3) [OF inv]] by (simp add: valid_account_def)
    have from_room: "acc_nonce (dbview s (sm_from tx)) + 1 + int k \<le> 2 ^ 53"
      using nonce_roomD [OF room, of "sm_from tx"] by simp
    then have "acc_nonce (dbview s (sm_from tx)) + 1 \<le> 2 ^ 53"
      by simp
    from js_plus_minus_one(1) [OF from_nonce this]
    have inc: "js_plus (acc_nonce (dbview s (sm_from tx))) 1 = acc_nonce (dbview s (sm_from tx)) + 1" .
    have n1: "acc_nonce (?H r1) + int k \<le> 2 ^ 53"
      unfolding vals applyV_values using from_room inc
      by (auto simp: debit_def credit_def)
    have n2: "acc_nonce (?H r2) + int k \<le> 2 ^ 53"
    proof (cases "sm_from tx = sm_to tx")
      case True
      with n1 vals show ?thesis by simp
    next
      case False
      then show ?thesis
        unfolding vals applyV_values using nonce_roomD [OF room, of "sm_to tx"]
        by (simp add: debit_def credit_def)
    qed
    have k: "int k \<le> 2 ^ 53"
      using room by (simp add: nonce_room_def)
    have old: "acc_nonce acc + int k \<le> 2 ^ 53" if "sm_dbAccounts s a = Some acc" for a acc
      using room that by (fastforce simp: nonce_room_def)
    show ?thesis
      unfolding nonce_room_def db' using k n1 n2 old by auto
  qed
qed

text \<open>
  \<open>revertTransaction\<close> on a well-formed state succeeds when the sender is in the store
  and the accounts it would write are valid, and then crediting the sender and debiting
  the recipient is what it does to the stored accounts.
\<close>

lemma revertTransaction_inv:
  assumes inv: "sm_inv s"
    and known: "sm_dbAccounts s (sm_from tx) \<noteq> None"
    and valid_from: "valid_account (revertV tx (dbview s) (sm_from tx))"
    and valid_to: "valid_account (revertV tx (dbview s) (sm_to tx))"
  shows "\<exists>s'. revertTransaction s tx = (None, s') \<and> sm_inv s' \<and> dbview s' = revertV tx (dbview s)
           \<and> block_part s' = block_part s \<and> db_grows s s'"
proof -
  obtain r1 s1 where g1: "getAccount s (sm_from tx) = (r1, s1)"
    by (cases "getAccount s (sm_from tx)")
  obtain r2 s2 where g2: "getAccount s1 (sm_to tx) = (r2, s2)"
    by (cases "getAccount s1 (sm_to tx)")
  note T = two_gets [OF sm_invD(1,2) [OF inv] g1 g2]
  let ?H = "revert_heap tx (sm_accountHeap s2) r1 r2"
  let ?t = "s2 \<lparr> sm_accountHeap := ?H \<rparr>"
  let ?s' = "write_through (write_through ?t (sm_from tx) r1) (sm_to tx) r2"
  have same_obj: "r1 = r2" if "sm_from tx = sm_to tx"
    using T(12) [OF that] known by simp
  have vals: "?H r1 = revertV tx (dbview s) (sm_from tx)" "?H r2 = revertV tx (dbview s) (sm_to tx)"
    using same_obj T(11) unfolding revert_heap_values revertV_values T(5,6) by auto
  have v1: "valid_account (?H r1)" and v2: "valid_account (?H r2)"
    using valid_from valid_to unfolding vals by simp_all
  have run: "revertTransaction s tx = (None, ?s')"
    unfolding revertTransaction_unfold [OF g1 g2] Let_def using v1 v2 by simp
  have dbv2: "db_valid s2"
    using sm_invD(3) [OF inv] T(3) by (simp add: db_valid_def)
  have outside: "\<And>y. y \<noteq> r1 \<Longrightarrow> y \<noteq> r2 \<Longrightarrow> ?H y = sm_accountHeap s2 y"
    by (rule revert_heap_values(3))
  note D = dirty_state [OF T(1,2) T(9,10) T(7,8) T(11) dbv2 outside v1 v2]
  have cap: "0 < lru_capacity (sm_blockCache ?s')"
    using D(5) T(4) sm_invD(4) [OF inv] by (simp add: block_part_def)
  have 1: "sm_inv ?s'"
    unfolding sm_inv_def using D(1,2,3) cap by simp
  have 2: "block_part ?s' = block_part s"
    using D(5) T(4) by simp
  have db': "sm_dbAccounts ?s' = (sm_dbAccounts s)(sm_from tx \<mapsto> ?H r1, sm_to tx \<mapsto> ?H r2)"
    using D(4) T(3) by simp
  have 3: "db_grows s ?s'"
    unfolding db' db_grows_def by simp
  have 4: "dbview ?s' = revertV tx (dbview s)"
    using dbview_upd2 [OF db'] revertV_upd [of tx "dbview s"] unfolding vals by simp
  from run 1 2 3 4 show ?thesis
    by blast
qed

section \<open>Committing and reverting a block\<close>

lemma revertAll_append:
  "revertAll s (xs @ ys) =
     (case revertAll s xs of (Some e, s') \<Rightarrow> (Some e, s') | (None, s') \<Rightarrow> revertAll s' ys)"
  by (induction xs arbitrary: s) (auto split: prod.splits option.splits)

lemma db_grows_refl: "db_grows s s"
  by (simp add: db_grows_def)

lemma db_grows_trans: "db_grows s t \<Longrightarrow> db_grows t u \<Longrightarrow> db_grows s u"
  by (simp add: db_grows_def)

lemma db_growsD: "db_grows s t \<Longrightarrow> sm_dbAccounts s a \<noteq> None \<Longrightarrow> sm_dbAccounts t a \<noteq> None"
  by (simp add: db_grows_def)

text \<open>
  The loop of \<open>commitBlock\<close> followed, from any well-formed state with the same stored
  accounts, by the loop of \<open>revertBlock\<close> over the reversed transactions.
\<close>

lemma applyAll_then_revertAll:
  assumes "sm_inv s" and "\<forall>tx \<in> set txs. wf_transaction tx" and "applyAll s txs = (None, s1)"
    and "nonce_room (length txs) s"
  shows "sm_inv s1 \<and> db_grows s s1 \<and> block_part s1 = block_part s
     \<and> (\<forall>t. sm_inv t \<and> dbview t = dbview s1 \<and> db_grows s1 t \<longrightarrow>
            (\<exists>t'. revertAll t (rev txs) = (None, t') \<and> sm_inv t' \<and> dbview t' = dbview s
                  \<and> db_grows t t' \<and> block_part t' = block_part t))"
  using assms
proof (induction txs arbitrary: s)
  case Nil
  then show ?case by (auto simp: db_grows_refl)
next
  case (Cons tx txs)
  from Cons.prems(3) obtain sa where ap: "applyTransaction s tx = (None, sa)"
    and rest: "applyAll sa txs = (None, s1)"
    by (auto split: prod.splits option.splits)
  from Cons.prems(2) have wft: "wf_transaction tx" and wfs: "\<forall>tx \<in> set txs. wf_transaction tx"
    by simp_all
  note A = applyTransaction_inv [OF Cons.prems(1) wft ap]
  from Cons.prems(4) have room: "nonce_room (Suc (length txs)) s"
    by simp
  have room': "nonce_room (length txs) sa"
    using room by (rule A(7))
  have nonce0: "0 \<le> acc_nonce (dbview s (sm_from tx))"
    using dbview_valid [OF sm_invD(3) [OF Cons.prems(1)]] by (simp add: valid_account_def)
  have nonce1: "acc_nonce (dbview s (sm_from tx)) + 1 \<le> 2 ^ 53"
    using nonce_roomD [OF room, of "sm_from tx"] by simp
  from Cons.IH [OF A(1) wfs rest room']
  have inv1: "sm_inv s1" and grow1: "db_grows sa s1" and bp1: "block_part s1 = block_part sa"
    and reverting: "\<And>t. sm_inv t \<Longrightarrow> dbview t = dbview s1 \<Longrightarrow> db_grows s1 t \<Longrightarrow>
            \<exists>t'. revertAll t (rev txs) = (None, t') \<and> sm_inv t' \<and> dbview t' = dbview sa
                  \<and> db_grows t t' \<and> block_part t' = block_part t"
    by blast+
  have "\<exists>t'. revertAll t (rev (tx # txs)) = (None, t') \<and> sm_inv t' \<and> dbview t' = dbview s
                  \<and> db_grows t t' \<and> block_part t' = block_part t"
    if t: "sm_inv t" "dbview t = dbview s1" "db_grows s1 t" for t
  proof -
    from reverting [OF t] obtain t1 where r1: "revertAll t (rev txs) = (None, t1)"
      and inv_t1: "sm_inv t1" and view_t1: "dbview t1 = dbview sa"
      and grow_t1: "db_grows t t1" and bp_t1: "block_part t1 = block_part t"
      by blast
    have known: "sm_dbAccounts t1 (sm_from tx) \<noteq> None"
      using A(5) grow1 t(3) grow_t1 by (blast dest: db_growsD)
    have view: "revertV tx (dbview t1) = dbview s"
      unfolding view_t1 A(2) using nonce0 nonce1 by (rule revertV_applyV)
    have valid: "valid_account (revertV tx (dbview t1) a)" for a
      unfolding view using sm_invD(3) [OF Cons.prems(1)] by (rule dbview_valid)
    from revertTransaction_inv [OF inv_t1 known valid valid]
    obtain t2 where r2: "revertTransaction t1 tx = (None, t2)" and inv_t2: "sm_inv t2"
      and view_t2: "dbview t2 = revertV tx (dbview t1)"
      and bp_t2: "block_part t2 = block_part t1" and grow_t2: "db_grows t1 t2"
      by blast
    have "revertAll t (rev (tx # txs)) = (None, t2)"
      using r1 r2 by (simp add: revertAll_append)
    moreover have "dbview t2 = dbview s"
      using view_t2 view by simp
    moreover have "db_grows t t2"
      using grow_t1 grow_t2 by (rule db_grows_trans)
    moreover have "block_part t2 = block_part t"
      using bp_t2 bp_t1 by simp
    ultimately show ?thesis
      using inv_t2 by blast
  qed
  moreover have "db_grows s s1"
    using A(4) grow1 by (rule db_grows_trans)
  moreover have "block_part s1 = block_part s"
    using bp1 A(3) by simp
  ultimately show ?case
    using inv1 by blast
qed

lemma account_part_inv:
  assumes "account_part s' = account_part s"
    and "lru_capacity (sm_blockCache s') = lru_capacity (sm_blockCache s)"
  shows "sm_inv s' = sm_inv s" and "dbview s' = dbview s" and "db_grows s s'" and "db_grows s' s"
  using assms
  by (auto simp: account_part_def sm_inv_def cache_wf_def coherent_def db_valid_def dbview_def
      db_grows_def fun_eq_iff)

lemma accountView_dbview:
  assumes "sm_inv s"
  shows "accountView s a = dbview s a"
proof -
  obtain r s' where g: "getAccount s a = (r, s')"
    by (cases "getAccount s a")
  from getAccount_post [OF sm_invD(1,2) [OF assms] g]
  have "sm_accountHeap s' r = dbview s a"
    by (rule getAccount_postD(5))
  with g show ?thesis
    by (simp add: accountView_def)
qed

lemma getBlock_hit:
  assumes "map_of (lru_items (sm_blockCache s)) h = Some r"
  shows "getBlock s h = (Some r, s \<lparr> sm_blockCache := snd (lru_get (sm_blockCache s) h) \<rparr>)"
  using assms by (simp add: getBlock_def lru_get_def)

lemma getBlock_frame:
  "account_part (snd (getBlock s h)) = account_part s"
  "lru_capacity (sm_blockCache (snd (getBlock s h))) = lru_capacity (sm_blockCache s)"
  "map_of (lru_items (sm_blockCache (snd (getBlock s h)))) = map_of (lru_items (sm_blockCache s))"
  "r < sm_blockNext s \<Longrightarrow> sm_blockHeap (snd (getBlock s h)) r = sm_blockHeap s r"
  "sm_blockNext s \<le> sm_blockNext (snd (getBlock s h))"
proof -
  have eq: "getBlock s h =
     (case map_of (lru_items (sm_blockCache s)) h of
        Some r \<Rightarrow> (Some r, s \<lparr> sm_blockCache := snd (lru_get (sm_blockCache s) h) \<rparr>)
      | None \<Rightarrow> (case sm_dbBlocks s h of
                   None \<Rightarrow> (None, s)
                 | Some b \<Rightarrow> (Some (sm_blockNext s),
                     s \<lparr> sm_blockHeap := (sm_blockHeap s)(sm_blockNext s := b),
                         sm_blockNext := Suc (sm_blockNext s) \<rparr>)))"
    by (simp add: getBlock_def lru_get_def new_block_def split: option.splits)
  show "account_part (snd (getBlock s h)) = account_part s"
    unfolding eq by (simp add: account_part_def split: option.splits)
  show "lru_capacity (sm_blockCache (snd (getBlock s h))) = lru_capacity (sm_blockCache s)"
    unfolding eq by (simp add: lru_get_capacity split: option.splits)
  show "map_of (lru_items (sm_blockCache (snd (getBlock s h)))) = map_of (lru_items (sm_blockCache s))"
    unfolding eq by (simp add: lru_get_map_of split: option.splits)
  show "sm_blockHeap (snd (getBlock s h)) r = sm_blockHeap s r" if "r < sm_blockNext s"
    unfolding eq using that by (simp split: option.splits)
  show "sm_blockNext s \<le> sm_blockNext (snd (getBlock s h))"
    unfolding eq by (simp split: option.splits)
qed

lemma lru_set_lookup:
  assumes "0 < lru_capacity c"
  shows "map_of (lru_items (lru_set c k v)) k = Some v"
  using assms by (cases "lru_capacity c") (simp_all add: lru_set_def)

text \<open>What a successful \<open>commitBlock\<close> is made of.\<close>

lemma commitBlock_success:
  assumes "commitBlock s b = (None, s1)"
  obtains sa where "applyAll (snd (new_block s b)) (smb_transactions b) = (None, sa)"
    and "s1 = sa \<lparr> sm_currentBlock := Some (sm_blockNext s),
                   sm_blockCache := lru_set (sm_blockCache sa) (smb_hash (sm_blockHeap sa (sm_blockNext s))) (sm_blockNext s),
                   sm_dbBlocks := (sm_dbBlocks sa)(smb_hash (sm_blockHeap sa (sm_blockNext s))
                                     \<mapsto> sm_blockHeap sa (sm_blockNext s)) \<rparr>"
  using assms
  by (auto simp: commitBlock_def new_block_def Let_def split: prod.splits option.splits)

section \<open>The block side under account operations\<close>

lemma getAccount_block_part: "block_part (snd (getAccount s a)) = block_part s"
  by (simp add: getAccount_def new_account_def block_part_def lru_get_def Let_def
      split: option.splits)

lemma applyTransaction_block_part: "block_part (snd (applyTransaction s tx)) = block_part s"
proof -
  obtain r1 s1 where g1: "getAccount s (sm_from tx) = (r1, s1)"
    by (cases "getAccount s (sm_from tx)")
  obtain r2 s2 where g2: "getAccount s1 (sm_to tx) = (r2, s2)"
    by (cases "getAccount s1 (sm_to tx)")
  have "block_part s2 = block_part s"
    using getAccount_block_part [of s "sm_from tx"] getAccount_block_part [of s1 "sm_to tx"]
    by (simp add: g1 g2)
  then show ?thesis
    unfolding applyTransaction_unfold [OF g1 g2]
    by (simp add: Let_def block_part_def write_through_def)
qed


lemma applyAll_block_part: "block_part (snd (applyAll s txs)) = block_part s"
proof (induction txs arbitrary: s)
  case Nil
  show ?case by simp
next
  case (Cons tx txs)
  obtain e s' where ap: "applyTransaction s tx = (e, s')"
    by (cases "applyTransaction s tx")
  have step: "block_part s' = block_part s"
    using applyTransaction_block_part [of s tx] by (simp add: ap)
  show ?case
  proof (cases e)
    case None
    with ap have "applyAll s (tx # txs) = applyAll s' txs"
      by simp
    with Cons.IH [of s'] step show ?thesis
      by simp
  next
    case (Some err)
    with ap step show ?thesis
      by simp
  qed
qed


lemma block_partD:
  assumes "block_part s' = block_part s"
  shows "sm_blockCache s' = sm_blockCache s" and "sm_dbBlocks s' = sm_dbBlocks s"
    and "sm_currentBlock s' = sm_currentBlock s" and "sm_blockHeap s' = sm_blockHeap s"
    and "sm_blockNext s' = sm_blockNext s"
  using assms by (simp_all add: block_part_def)

text \<open>The loop of \<open>commitBlock\<close> fails at one transaction, after those before it.\<close>

lemma applyAll_fails:
  assumes "applyAll s txs = (Some e, s')"
  shows "\<exists>pre tx post s1. txs = pre @ tx # post \<and> applyAll s pre = (None, s1)
           \<and> applyTransaction s1 tx = (Some e, s')"
  using assms
proof (induction txs arbitrary: s)
  case Nil
  then show ?case by simp
next
  case (Cons tx txs)
  obtain e0 s0 where ap: "applyTransaction s tx = (e0, s0)"
    by (cases "applyTransaction s tx")
  show ?case
  proof (cases e0)
    case (Some err)
    with ap Cons.prems have "applyTransaction s tx = (Some e, s')"
      by simp
    then have "tx # txs = [] @ tx # txs \<and> applyAll s [] = (None, s)
           \<and> applyTransaction s tx = (Some e, s')"
      by simp
    then show ?thesis by blast
  next
    case None
    with ap Cons.prems have "applyAll s0 txs = (Some e, s')"
      by simp
    from Cons.IH [OF this] obtain pre tx' post s1 where
      split: "txs = pre @ tx' # post" and before: "applyAll s0 pre = (None, s1)"
      and failing: "applyTransaction s1 tx' = (Some e, s')"
      by blast
    from ap None before have "applyAll s (tx # pre) = (None, s1)"
      by simp
    with split failing have "tx # txs = (tx # pre) @ tx' # post
        \<and> applyAll s (tx # pre) = (None, s1) \<and> applyTransaction s1 tx' = (Some e, s')"
      by simp
    then show ?thesis by blast
  qed
qed

lemmas sm_eval = commitBlock_def revertBlock_def applyTransaction_def revertTransaction_def
  getAccount_def updateAccount_def validateAccount_def getBlock_def new_block_def new_account_def
  new_StateManager_def new_LRUCache_def lru_get_def lru_set_def set_balance_def set_nonce_def
  reverse_transactions_def createEmptyAccount_def accountView_def Let_def
  js_plus_def js_minus_def

section \<open>A failed commit\<close>

text \<open>
  C1, as stated: when a transaction of the block fails in \<open>commitBlock\<close>, no
  transaction of the block has a visible effect on any account. It fails. In
  \<open>sm_block_bad\<close> the first payment (10, fee 1) is covered by the balance 100 of the
  sender and the second (1000, fee 1) is not: \<open>commitBlock\<close> throws, and the first
  payment stays applied, in the store and in what \<open>getAccount\<close> returns.
\<close>

theorem C1_failed_commit_counterexample:
  "fst (commitBlock sm_state0 sm_block_bad)
     = Some (JsError StateError
         ''Block commit failed: Transaction application failed: Insufficient balance'')
   \<and> accountView sm_state0 ''alice'' = alice100
   \<and> accountView (snd (commitBlock sm_state0 sm_block_bad)) ''alice''
       = alice100 \<lparr> acc_balance := 89, acc_nonce := 1 \<rparr>
   \<and> sm_dbAccounts (snd (commitBlock sm_state0 sm_block_bad)) ''alice''
       = Some (alice100 \<lparr> acc_balance := 89, acc_nonce := 1 \<rparr>)
   \<and> acc_balance (accountView sm_state0 ''bob'') = 0
   \<and> acc_balance (accountView (snd (commitBlock sm_state0 sm_block_bad)) ''bob'') = 10"
  by (simp add: sm_eval round_to_double_def sm_state0_def sm_block_bad_def sm_pay10_def
      sm_pay1000_def alice100_def)

text \<open>
  C1, amended: when a transaction of the block fails in \<open>commitBlock\<close>, the call throws
  \<open>Block commit failed:\<close> followed by the message of that failure, and the committed
  block pointer, the block cache and the stored blocks are unchanged; the accounts
  are left as the transactions before the failing one, which stay applied, and the
  failed attempt leave them.
\<close>

theorem C1_failed_commit:
  assumes "commitBlock s b = (Some e, s')"
  shows "sm_currentBlock s' = sm_currentBlock s \<and> sm_blockCache s' = sm_blockCache s
     \<and> sm_dbBlocks s' = sm_dbBlocks s
     \<and> (\<exists>pre tx post s1 e0. smb_transactions b = pre @ tx # post
           \<and> applyAll (snd (new_block s b)) pre = (None, s1)
           \<and> applyTransaction s1 tx = (Some e0, s')
           \<and> e = JsError StateError (''Block commit failed: '' @ message e0))"
proof -
  obtain r s0 where nb: "new_block s b = (r, s0)"
    by (cases "new_block s b")
  then have txs: "smb_transactions (sm_blockHeap s0 r) = smb_transactions b"
    and fields0: "sm_currentBlock s0 = sm_currentBlock s" "sm_blockCache s0 = sm_blockCache s"
      "sm_dbBlocks s0 = sm_dbBlocks s"
    by (auto simp: new_block_def)
  obtain e0 where fails: "applyAll s0 (smb_transactions b) = (Some e0, s')"
    and e: "e = JsError StateError (''Block commit failed: '' @ message e0)"
    using assms unfolding commitBlock_def nb by (auto simp: txs split: prod.splits option.splits)
  have "block_part s' = block_part s0"
    using applyAll_block_part [of s0 "smb_transactions b"] by (simp add: fails)
  from block_partD(1-3) [OF this] fields0
  have frame: "sm_currentBlock s' = sm_currentBlock s" "sm_blockCache s' = sm_blockCache s"
    "sm_dbBlocks s' = sm_dbBlocks s"
    by simp_all
  from applyAll_fails [OF fails] obtain pre tx post s1 where
    "smb_transactions b = pre @ tx # post" "applyAll s0 pre = (None, s1)"
    "applyTransaction s1 tx = (Some e0, s')"
    by blast
  with e nb have "\<exists>pre tx post s1 e0. smb_transactions b = pre @ tx # post
           \<and> applyAll (snd (new_block s b)) pre = (None, s1)
           \<and> applyTransaction s1 tx = (Some e0, s')
           \<and> e = JsError StateError (''Block commit failed: '' @ message e0)"
    by auto
  with frame show ?thesis
    by simp
qed

theorem C1_failed_commit_witness:
  "fst (commitBlock sm_state0 sm_block_bad)
     = Some (JsError StateError
         ''Block commit failed: Transaction application failed: Insufficient balance'')
   \<and> sm_currentBlock (snd (commitBlock sm_state0 sm_block_bad)) = None
   \<and> lru_items (sm_blockCache (snd (commitBlock sm_state0 sm_block_bad))) = []
   \<and> sm_dbBlocks (snd (commitBlock sm_state0 sm_block_bad)) ''b1'' = None"
proof -
  have thrown: "fst (commitBlock sm_state0 sm_block_bad)
     = Some (JsError StateError
         ''Block commit failed: Transaction application failed: Insufficient balance'')"
    by (simp add: sm_eval round_to_double_def sm_state0_def sm_block_bad_def sm_pay10_def
        sm_pay1000_def alice100_def)
  then have "commitBlock sm_state0 sm_block_bad
     = (Some (JsError StateError
         ''Block commit failed: Transaction application failed: Insufficient balance''),
        snd (commitBlock sm_state0 sm_block_bad))"
    by (simp add: prod_eq_iff)
  from C1_failed_commit [OF this]
  have "sm_currentBlock (snd (commitBlock sm_state0 sm_block_bad)) = sm_currentBlock sm_state0"
    and "sm_blockCache (snd (commitBlock sm_state0 sm_block_bad)) = sm_blockCache sm_state0"
    and "sm_dbBlocks (snd (commitBlock sm_state0 sm_block_bad)) = sm_dbBlocks sm_state0"
    by blast+
  with thrown show ?thesis
    by (simp add: sm_state0_def new_StateManager_def new_LRUCache_def)
qed
section \<open>Reverting a cached block\<close>

lemma revertBlock_cached:
  assumes "map_of (lru_items (sm_blockCache s)) h = Some r"
    and "s2 = reverse_transactions (s \<lparr> sm_blockCache := snd (lru_get (sm_blockCache s) h) \<rparr>) r"
  shows "revertBlock s h =
     (case revertAll s2 (smb_transactions (sm_blockHeap s2 r)) of
        (Some e, s3) \<Rightarrow> (Some (JsError StateError (''Block revert failed: '' @ message e)), s3)
      | (None, s3) \<Rightarrow>
          (None, snd (getBlock s3 (smb_parentHash (sm_blockHeap s3 r)))
                   \<lparr> sm_currentBlock := fst (getBlock s3 (smb_parentHash (sm_blockHeap s3 r))) \<rparr>))"
  unfolding revertBlock_def getBlock_hit [OF assms(1)] assms(2)
  by (simp add: Let_def split: prod.splits option.splits)




section \<open>Commit, then revert\<close>

lemma bit_length_eq: "2 ^ k \<le> n \<Longrightarrow> n < 2 ^ Suc k \<Longrightarrow> bit_length n = Suc k"
proof (induction k arbitrary: n)
  case 0
  then have "n = 1" by simp
  then show ?case by (simp add: bit_length.simps)
next
  case (Suc k)
  have "2 ^ k \<le> n div 2" using Suc.prems(1) by simp
  moreover have "n div 2 < 2 ^ Suc k" using Suc.prems(2) by simp
  ultimately have "bit_length (n div 2) = Suc k" by (rule Suc.IH)
  moreover have "(0::nat) < 2 ^ Suc k" by simp
  then have "n \<noteq> 0" using Suc.prems(1) by linarith
  ultimately show ?case by (subst bit_length.simps) simp
qed

text \<open>\<open>2^53 + 1\<close> is no double: it lies halfway between two and goes to the even one.\<close>

lemma round_to_double_tie: "round_to_double 9007199254740993 = 9007199254740992"
proof -
  have "bit_length 9007199254740993 = Suc 53"
    by (rule bit_length_eq) simp_all
  then show ?thesis
    by (simp add: round_to_double_def Let_def)
qed

lemma round_to_double_below: "round_to_double 9007199254740991 = 9007199254740991"
  by (simp add: round_to_double_def)

lemma round_to_double_small: "round_to_double 0 = 0" "round_to_double 1 = 1" "round_to_double (- 1) = - 1"
  by (simp_all add: round_to_double_def)

text \<open>
  C2, as stated: after a successful \<open>commitBlock(b)\<close>, \<open>revertBlock(b.hash)\<close> restores
  every account that the transactions of \<open>b\<close> touch. It fails, at two inputs.

  The sender of \<open>sm_block_one\<close> has the nonce \<open>2^53\<close>. The commit succeeds and leaves the
  nonce as it is, since \<open>2^53 + 1\<close> rounds to \<open>2^53\<close>; the revert succeeds and takes 1
  off: the nonce is \<open>2^53 - 1\<close>, not what it was.

  The transaction of \<open>sm_block_self0\<close> moves nothing from an unknown address to itself.
  Its commit succeeds: sender and recipient are two new objects, the second write
  wins, and the account has the nonce 0. In the revert the two are the one cached
  object, its nonce becomes \<open>-1\<close>, \<open>updateAccount\<close> throws, and \<open>getAccount\<close> returns
  the account with the nonce \<open>-1\<close>.
\<close>

theorem C2_revert_restores_counterexample:
  "fst (commitBlock sm_state_max sm_block_one) = None
   \<and> fst (revertBlock (snd (commitBlock sm_state_max sm_block_one)) (smb_hash sm_block_one)) = None
   \<and> acc_nonce (accountView sm_state_max ''alice'') = 9007199254740992
   \<and> acc_nonce (accountView (snd (revertBlock (snd (commitBlock sm_state_max sm_block_one))
                      (smb_hash sm_block_one))) ''alice'') = 9007199254740991
   \<and> fst (commitBlock sm_state0 sm_block_self0) = None
   \<and> fst (revertBlock (snd (commitBlock sm_state0 sm_block_self0)) (smb_hash sm_block_self0))
       = Some (JsError StateError
           ''Block revert failed: Failed to update account: Invalid account state'')
   \<and> acc_nonce (accountView sm_state0 ''dave'') = 0
   \<and> acc_nonce (accountView (snd (revertBlock (snd (commitBlock sm_state0 sm_block_self0))
                      (smb_hash sm_block_self0))) ''dave'') = - 1"
proof -
  have big: "fst (commitBlock sm_state_max sm_block_one) = None
   \<and> fst (revertBlock (snd (commitBlock sm_state_max sm_block_one)) (smb_hash sm_block_one)) = None
   \<and> acc_nonce (accountView sm_state_max ''alice'') = 9007199254740992
   \<and> acc_nonce (accountView (snd (revertBlock (snd (commitBlock sm_state_max sm_block_one))
                      (smb_hash sm_block_one))) ''alice'') = 9007199254740991"
    by (simp add: sm_eval round_to_double_tie round_to_double_below sm_state_max_def
        sm_block_one_def sm_pay10_def alice100_def)
  have self0: "fst (commitBlock sm_state0 sm_block_self0) = None
   \<and> fst (revertBlock (snd (commitBlock sm_state0 sm_block_self0)) (smb_hash sm_block_self0))
       = Some (JsError StateError
           ''Block revert failed: Failed to update account: Invalid account state'')
   \<and> acc_nonce (accountView sm_state0 ''dave'') = 0
   \<and> acc_nonce (accountView (snd (revertBlock (snd (commitBlock sm_state0 sm_block_self0))
                      (smb_hash sm_block_self0))) ''dave'') = - 1"
    by (simp add: sm_eval round_to_double_small sm_state0_def sm_block_self0_def sm_self0_def
        alice100_def)
  from big self0 show ?thesis
    by blast
qed
text \<open>A state manager over a valid store, as the constructor builds it, is well formed.\<close>

lemma sm_inv_new_StateManager:
  assumes "\<And>a acc. dbAccounts a = Some acc \<Longrightarrow> valid_account acc" and "0 < cacheSize"
  shows "sm_inv (new_StateManager dbAccounts dbBlocks cacheSize)"
  using assms
  by (simp add: sm_inv_def cache_wf_def coherent_def db_valid_def new_StateManager_def
      new_LRUCache_def)

text \<open>
  C2, amended: for every block \<open>b\<close> of transactions with a positive value and a
  non-negative fee, committed with success in a well-formed state (the account cache
  has room, holds each object once and agrees with the store, whose accounts are
  valid) in which every nonce stays within \<open>2^53\<close> after as many increments as \<open>b\<close>
  has transactions: \<open>revertBlock(b.hash)\<close> then succeeds, and \<open>getAccount\<close> returns for
  every address, touched by \<open>b\<close> or not, the account it returned before the commit,
  every field of it.
\<close>

theorem C2_commit_then_revert:
  assumes inv: "sm_inv s" and room: "nonce_room (length (smb_transactions b)) s"
    and wf: "\<forall>tx \<in> set (smb_transactions b). wf_transaction tx"
    and commit: "commitBlock s b = (None, s1)"
  shows "fst (revertBlock s1 (smb_hash b)) = None
     \<and> (\<forall>a. accountView (snd (revertBlock s1 (smb_hash b))) a = accountView s a)"
proof -
  define s0 where "s0 = snd (new_block s b)"
  define n where "n = sm_blockNext s"
  have acc0: "account_part s0 = account_part s"
    and cap0: "lru_capacity (sm_blockCache s0) = lru_capacity (sm_blockCache s)"
    and heap0: "sm_blockHeap s0 n = b"
    by (simp_all add: s0_def n_def new_block_def account_part_def)
  have inv0: "sm_inv s0"
    using account_part_inv(1) [OF acc0 cap0] inv by simp
  have view0: "dbview s0 = dbview s"
    by (rule account_part_inv(2) [OF acc0 cap0])
  have room0: "nonce_room (length (smb_transactions b)) s0"
    using room acc0 by (simp add: nonce_room_def account_part_def)
  from commit obtain sa where
    ap: "applyAll (snd (new_block s b)) (smb_transactions b) = (None, sa)"
    and s1: "s1 = sa \<lparr> sm_currentBlock := Some (sm_blockNext s),
                   sm_blockCache := lru_set (sm_blockCache sa) (smb_hash (sm_blockHeap sa (sm_blockNext s))) (sm_blockNext s),
                   sm_dbBlocks := (sm_dbBlocks sa)(smb_hash (sm_blockHeap sa (sm_blockNext s))
                                     \<mapsto> sm_blockHeap sa (sm_blockNext s)) \<rparr>"
    by (rule commitBlock_success)
  have ap0: "applyAll s0 (smb_transactions b) = (None, sa)"
    using ap by (simp add: s0_def)
  from applyAll_then_revertAll [OF inv0 wf ap0 room0]
  have inv_a: "sm_inv sa" and bp: "block_part sa = block_part s0"
    and reverting: "\<And>t. sm_inv t \<Longrightarrow> dbview t = dbview sa \<Longrightarrow> db_grows sa t \<Longrightarrow>
            \<exists>t'. revertAll t (rev (smb_transactions b)) = (None, t') \<and> sm_inv t'
                  \<and> dbview t' = dbview s0 \<and> db_grows t t' \<and> block_part t' = block_part t"
    by blast+
  have obj: "sm_blockHeap sa n = b"
    using block_partD(4) [OF bp] heap0 by simp
  define c1 where "c1 = lru_set (sm_blockCache sa) (smb_hash b) n"
  have s1': "s1 = sa \<lparr> sm_currentBlock := Some n, sm_blockCache := c1,
                       sm_dbBlocks := (sm_dbBlocks sa)(smb_hash b \<mapsto> b) \<rparr>"
    using s1 obj by (simp add: n_def c1_def)
  have hit: "map_of (lru_items (sm_blockCache s1)) (smb_hash b) = Some n"
    unfolding s1' using lru_set_lookup [OF sm_invD(4) [OF inv_a]] by (simp add: c1_def)
  define s2 where
    "s2 = reverse_transactions (s1 \<lparr> sm_blockCache := snd (lru_get (sm_blockCache s1) (smb_hash b)) \<rparr>) n"
  have acc2: "account_part s2 = account_part sa"
    by (simp add: s2_def s1' reverse_transactions_def account_part_def)
  have cap2: "lru_capacity (sm_blockCache s2) = lru_capacity (sm_blockCache sa)"
    by (simp add: s2_def s1' reverse_transactions_def lru_get_capacity c1_def lru_set_capacity)
  have txs2: "smb_transactions (sm_blockHeap s2 n) = rev (smb_transactions b)"
    using obj by (simp add: s2_def s1' reverse_transactions_def)
  have inv2: "sm_inv s2"
    using account_part_inv(1) [OF acc2 cap2] inv_a by simp
  have view2: "dbview s2 = dbview sa"
    by (rule account_part_inv(2) [OF acc2 cap2])
  have grow2: "db_grows sa s2"
    by (rule account_part_inv(3) [OF acc2 cap2])
  from reverting [OF inv2 view2 grow2] obtain t' where
    rv: "revertAll s2 (rev (smb_transactions b)) = (None, t')"
    and inv_t: "sm_inv t'" and view_t: "dbview t' = dbview s0"
    by blast
  define final where
    "final = snd (getBlock t' (smb_parentHash (sm_blockHeap t' n)))
               \<lparr> sm_currentBlock := fst (getBlock t' (smb_parentHash (sm_blockHeap t' n))) \<rparr>"
  have rb: "revertBlock s1 (smb_hash b) = (None, final)"
    unfolding revertBlock_cached [OF hit s2_def] txs2 rv final_def by simp
  have accf: "account_part final = account_part t'"
    using getBlock_frame(1) [of t' "smb_parentHash (sm_blockHeap t' n)"]
    by (simp add: final_def account_part_def)
  have capf: "lru_capacity (sm_blockCache final) = lru_capacity (sm_blockCache t')"
    using getBlock_frame(2) [of t' "smb_parentHash (sm_blockHeap t' n)"]
    by (simp add: final_def)
  have invf: "sm_inv final"
    using account_part_inv(1) [OF accf capf] inv_t by simp
  have viewf: "dbview final = dbview t'"
    by (rule account_part_inv(2) [OF accf capf])
  have "accountView final a = accountView s a" for a
    using accountView_dbview [OF invf, of a] accountView_dbview [OF inv, of a] viewf view_t view0
    by simp
  with rb show ?thesis
    by simp
qed

theorem C2_commit_then_revert_witness:
  "sm_inv sm_state0 \<and> nonce_room 2 sm_state0
   \<and> smb_transactions sm_block_good = [sm_pay10, sm_pay20]
   \<and> wf_transaction sm_pay10 \<and> wf_transaction sm_pay20
   \<and> commitBlock sm_state0 sm_block_good = (None, sm_state1)
   \<and> acc_balance (accountView sm_state1 ''alice'') = 67
   \<and> acc_nonce (accountView sm_state1 ''alice'') = 2
   \<and> fst (revertBlock sm_state1 ''b1'') = None
   \<and> (\<forall>a. accountView (snd (revertBlock sm_state1 ''b1'')) a = accountView sm_state0 a)
   \<and> accountView sm_state0 ''alice'' = alice100"
proof -
  have inv: "sm_inv sm_state0"
    unfolding sm_state0_def
    by (rule sm_inv_new_StateManager) (auto simp: valid_account_def alice100_def split: if_splits)
  have room: "nonce_room (length (smb_transactions sm_block_good)) sm_state0"
    by (auto simp: nonce_room_def sm_state0_def new_StateManager_def sm_block_good_def
        alice100_def split: if_splits)
  have txs: "smb_transactions sm_block_good = [sm_pay10, sm_pay20]"
    by (simp add: sm_block_good_def)
  have wf1: "wf_transaction sm_pay10" and wf2: "wf_transaction sm_pay20"
    by (simp_all add: wf_transaction_def sm_pay10_def sm_pay20_def)
  then have wf: "\<forall>tx \<in> set (smb_transactions sm_block_good). wf_transaction tx"
    by (simp add: txs)
  have "fst (commitBlock sm_state0 sm_block_good) = None"
    by (simp add: sm_eval round_to_double_def sm_state0_def sm_block_good_def sm_pay10_def
        sm_pay20_def alice100_def)
  then have commit: "commitBlock sm_state0 sm_block_good = (None, sm_state1)"
    by (simp add: sm_state1_def prod_eq_iff)
  have after: "acc_balance (accountView sm_state1 ''alice'') = 67"
    "acc_nonce (accountView sm_state1 ''alice'') = 2"
    by (simp_all add: sm_state1_def sm_eval round_to_double_def sm_state0_def sm_block_good_def
        sm_pay10_def sm_pay20_def alice100_def)
  have before: "accountView sm_state0 ''alice'' = alice100"
    by (simp add: sm_eval sm_state0_def alice100_def)
  have hash: "smb_hash sm_block_good = ''b1''"
    by (simp add: sm_block_good_def)
  from C2_commit_then_revert [OF inv room wf commit]
  have "fst (revertBlock sm_state1 ''b1'') = None"
    and "\<forall>a. accountView (snd (revertBlock sm_state1 ''b1'')) a = accountView sm_state0 a"
    unfolding hash by blast+
  moreover have "nonce_room 2 sm_state0"
    using room by (simp add: txs numeral_2_eq_2)
  ultimately show ?thesis
    using inv txs wf1 wf2 commit after before by simp
qed

end
